theory Spec2Isabelle
  imports Complex_Main "HOL-Library.AList"
begin

section \<open>JavaScript values\<close>

text \<open>
  A JavaScript string is a sequence of UTF-16 code units; a code unit is a natural number.
  \<open>lit\<close> turns an ASCII literal of the source into such a sequence.
\<close>

type_synonym jsstring = "nat list"

definition lit :: "string \<Rightarrow> jsstring" where
  "lit s = map of_char s"

text \<open>
  Numbers are the extended reals with NaN: the comparisons and the special values of
  IEEE doubles are kept, rounding and overflow of finite arithmetic are not modelled,
  and there is one zero.
\<close>

datatype jsnum = NaN | NInf | Fin real | PInf

text \<open>
  The values a parsed JSON document is made of, with \<open>undefined\<close> for an absent
  property. Values are trees: no two entries share an object.
\<close>

datatype jsval =
    JUndef
  | JNull
  | JBool bool
  | JNum jsnum
  | JStr jsstring
  | JArr "jsval list"
  | JObj "(jsstring \<times> jsval) list"

datatype exn = TypeError

fun num_neg :: "jsnum \<Rightarrow> jsnum" where
  "num_neg NaN = NaN"
| "num_neg NInf = PInf"
| "num_neg PInf = NInf"
| "num_neg (Fin r) = Fin (- r)"

fun num_add :: "jsnum \<Rightarrow> jsnum \<Rightarrow> jsnum" where
  "num_add NaN b = NaN"
| "num_add a NaN = NaN"
| "num_add PInf NInf = NaN"
| "num_add NInf PInf = NaN"
| "num_add PInf b = PInf"
| "num_add a PInf = PInf"
| "num_add NInf b = NInf"
| "num_add a NInf = NInf"
| "num_add (Fin a) (Fin b) = Fin (a + b)"

definition num_sub :: "jsnum \<Rightarrow> jsnum \<Rightarrow> jsnum" where
  "num_sub a b = num_add a (num_neg b)"

text \<open>\<open>a < b\<close>; false as soon as one side is NaN.\<close>

fun num_lt :: "jsnum \<Rightarrow> jsnum \<Rightarrow> bool" where
  "num_lt NaN b = False"
| "num_lt a NaN = False"
| "num_lt a NInf = False"
| "num_lt NInf b = True"
| "num_lt PInf b = False"
| "num_lt (Fin a) PInf = True"
| "num_lt (Fin a) (Fin b) = (a < b)"

text \<open>\<open>a <= b\<close> and \<open>a >= b\<close> are false with NaN, so they are not the negation of \<open><\<close>.\<close>

definition num_le :: "jsnum \<Rightarrow> jsnum \<Rightarrow> bool" where
  "num_le a b = (a \<noteq> NaN \<and> b \<noteq> NaN \<and> \<not> num_lt b a)"

fun num_abs :: "jsnum \<Rightarrow> jsnum" where
  "num_abs NaN = NaN"
| "num_abs NInf = PInf"
| "num_abs PInf = PInf"
| "num_abs (Fin r) = Fin \<bar>r\<bar>"

text \<open>\<open>Math.max\<close> and \<open>Math.min\<close> of two arguments: NaN if either is NaN.\<close>

definition Math_max :: "jsnum \<Rightarrow> jsnum \<Rightarrow> jsnum" where
  "Math_max a b = (if a = NaN \<or> b = NaN then NaN else if num_lt a b then b else a)"

definition Math_min :: "jsnum \<Rightarrow> jsnum \<Rightarrow> jsnum" where
  "Math_min a b = (if a = NaN \<or> b = NaN then NaN else if num_lt b a then b else a)"

text \<open>Division by a finite, non-zero number or by an infinity; a zero divisor counts as \<open>+0\<close>.\<close>

fun num_div :: "jsnum \<Rightarrow> jsnum \<Rightarrow> jsnum" where
  "num_div NaN b = NaN"
| "num_div a NaN = NaN"
| "num_div (Fin a) (Fin b) =
     (if b = 0 then (if a = 0 then NaN else if 0 < a then PInf else NInf) else Fin (a / b))"
| "num_div (Fin a) b = Fin 0"
| "num_div PInf (Fin b) = (if b < 0 then NInf else PInf)"
| "num_div NInf (Fin b) = (if b < 0 then PInf else NInf)"
| "num_div a b = NaN"

fun num_mul :: "jsnum \<Rightarrow> jsnum \<Rightarrow> jsnum" where
  "num_mul NaN b = NaN"
| "num_mul a NaN = NaN"
| "num_mul (Fin a) (Fin b) = Fin (a * b)"
| "num_mul (Fin a) PInf = (if a = 0 then NaN else if 0 < a then PInf else NInf)"
| "num_mul (Fin a) NInf = (if a = 0 then NaN else if 0 < a then NInf else PInf)"
| "num_mul PInf (Fin b) = (if b = 0 then NaN else if 0 < b then PInf else NInf)"
| "num_mul NInf (Fin b) = (if b = 0 then NaN else if 0 < b then NInf else PInf)"
| "num_mul PInf PInf = PInf"
| "num_mul NInf NInf = PInf"
| "num_mul PInf NInf = NInf"
| "num_mul NInf PInf = NInf"

text \<open>\<open>typeof v === 'number'\<close>, \<open>typeof v === 'string'\<close>, \<open>Array.isArray(v)\<close>, \<open>typeof v === 'object'\<close>, truthiness.\<close>

fun is_number :: "jsval \<Rightarrow> bool" where
  "is_number (JNum n) = True"
| "is_number v = False"

fun is_string :: "jsval \<Rightarrow> bool" where
  "is_string (JStr s) = True"
| "is_string v = False"

fun is_array :: "jsval \<Rightarrow> bool" where
  "is_array (JArr xs) = True"
| "is_array v = False"

fun typeof_object :: "jsval \<Rightarrow> bool" where
  "typeof_object JNull = True"
| "typeof_object (JArr xs) = True"
| "typeof_object (JObj kvs) = True"
| "typeof_object v = False"

fun truthy :: "jsval \<Rightarrow> bool" where
  "truthy JUndef = False"
| "truthy JNull = False"
| "truthy (JBool b) = b"
| "truthy (JNum n) = (n \<noteq> NaN \<and> n \<noteq> Fin 0)"
| "truthy (JStr s) = (s \<noteq> [])"
| "truthy (JArr xs) = True"
| "truthy (JObj kvs) = True"

fun nullish :: "jsval \<Rightarrow> bool" where
  "nullish JUndef = True"
| "nullish JNull = True"
| "nullish v = False"

text \<open>
  \<open>v.k\<close> for the property names of the source (none is \<open>length\<close> or an index) on a value
  that is not \<open>null\<close> or \<open>undefined\<close>; on those two the access raises a TypeError, which
  every caller below checks with \<open>nullish\<close> first.
\<close>

fun getprop :: "jsval \<Rightarrow> jsstring \<Rightarrow> jsval" where
  "getprop (JObj kvs) k = (case map_of kvs k of None \<Rightarrow> JUndef | Some v \<Rightarrow> v)"
| "getprop v k = JUndef"

text \<open>\<open>o.k = v\<close> on an object: an existing property keeps its place, a new one goes last.\<close>

fun set_prop :: "jsval \<Rightarrow> jsstring \<Rightarrow> jsval \<Rightarrow> jsval" where
  "set_prop (JObj kvs) k v = JObj (AList.update k v kvs)"
| "set_prop w k v = w"

text \<open>The number held by a value that was checked to be a number.\<close>

fun numval :: "jsval \<Rightarrow> jsnum" where
  "numval (JNum n) = n"
| "numval v = NaN"

text \<open>\<open>a || b\<close>\<close>

definition js_or :: "jsval \<Rightarrow> jsval \<Rightarrow> jsval" where
  "js_or a b = (if truthy a then a else b)"

text \<open>
  \<open>ToNumber\<close>. The conversion of strings, arrays and objects is the parameter \<open>conv\<close>: it goes
  through \<open>ToPrimitive\<close> and the string form, and it raises a TypeError for an object that
  has neither a callable \<open>valueOf\<close> nor a callable \<open>toString\<close> (as the parsed document
  \<open>{"valueOf": 1, "toString": 1}\<close>).
\<close>

fun ToNumber :: "(jsval \<Rightarrow> exn + jsnum) \<Rightarrow> jsval \<Rightarrow> exn + jsnum" where
  "ToNumber conv JUndef = Inr NaN"
| "ToNumber conv JNull = Inr (Fin 0)"
| "ToNumber conv (JBool b) = Inr (Fin (if b then 1 else 0))"
| "ToNumber conv (JNum n) = Inr n"
| "ToNumber conv v = conv v"

text \<open>\<open>xs.includes_lit(v)\<close> for an array of string literals.\<close>

definition includes_lit :: "string list \<Rightarrow> jsval \<Rightarrow> bool" where
  "includes_lit names v = (case v of JStr s \<Rightarrow> s \<in> set (map lit names) | _ \<Rightarrow> False)"

text \<open>
  \<open>(v || []).filter(f)\<close>: a falsy value gives the empty array, an array gives itself, and
  any other value has no \<open>filter\<close> method, so the call raises.
\<close>

definition arrayOrEmpty :: "jsval \<Rightarrow> exn + jsval list" where
  "arrayOrEmpty v =
     (if \<not> truthy v then Inr []
      else case v of JArr xs \<Rightarrow> Inr xs | _ \<Rightarrow> Inl TypeError)"

fun filterE :: "('a \<Rightarrow> exn + bool) \<Rightarrow> 'a list \<Rightarrow> exn + 'a list" where
  "filterE f [] = Inr []"
| "filterE f (x # xs) =
     (case f x of
        Inl e \<Rightarrow> Inl e
      | Inr b \<Rightarrow> (case filterE f xs of
                    Inl e \<Rightarrow> Inl e
                  | Inr ys \<Rightarrow> Inr (if b then x # ys else ys)))"

text \<open>
  \<open>xs.sort(cmp)\<close>, stable; \<open>gt a b\<close> stands for \<open>cmp(a, b) > 0\<close>. With a comparator that
  is not a consistent order (NaN or equal infinities among the keys) ECMAScript leaves
  the order to the engine; the model is then one such engine.
\<close>

fun insert_by :: "('a \<Rightarrow> 'a \<Rightarrow> bool) \<Rightarrow> 'a \<Rightarrow> 'a list \<Rightarrow> 'a list" where
  "insert_by gt x [] = [x]"
| "insert_by gt x (y # ys) = (if gt x y then y # insert_by gt x ys else x # y # ys)"

definition sort_by :: "('a \<Rightarrow> 'a \<Rightarrow> bool) \<Rightarrow> 'a list \<Rightarrow> 'a list" where
  "sort_by gt xs = foldr (insert_by gt) xs []"

section \<open>Level validator (levelValidator.js)\<close>

definition MAX_PLATFORMS :: nat where "MAX_PLATFORMS = 50"
definition MAX_ENEMIES :: nat where "MAX_ENEMIES = 15"
definition MAX_COINS :: nat where "MAX_COINS = 30"
definition MIN_PLATFORM_WIDTH :: real where "MIN_PLATFORM_WIDTH = 2"
definition MAX_GAP :: real where "MAX_GAP = 8"
definition MIN_DIFFICULTY :: real where "MIN_DIFFICULTY = 1"
definition MAX_DIFFICULTY :: real where "MAX_DIFFICULTY = 10"

text \<open>
  The error messages, with the values the source formats into them:
  'Level data is not a valid object', 'No platforms defined', 'Too many platforms: n (max 50)',
  'No valid platforms after validation', 'Missing or invalid spawn point',
  'Missing or invalid goal position', 'Unreachable gap of g between platforms i-1 and i'.
\<close>

datatype verror =
    NotAnObject
  | NoPlatformsDefined
  | TooManyPlatforms nat
  | NoValidPlatforms
  | BadSpawnPoint
  | BadGoalPosition
  | UnreachableGap jsnum nat nat

record validation_result =
  valid :: bool
  errors :: "verror list"
  data :: jsval

text \<open>The callback of the platform filter; \<open>p.x\<close> raises on \<open>null\<close> and \<open>undefined\<close>.\<close>

definition platformValid :: "jsval \<Rightarrow> exn + bool" where
  "platformValid p =
     (if nullish p then Inl TypeError
      else Inr
        (if \<not> is_number (getprop p (lit ''x'')) \<or> \<not> is_number (getprop p (lit ''y'')) then False
         else if \<not> is_number (getprop p (lit ''width''))
                 \<or> num_lt (numval (getprop p (lit ''width''))) (Fin MIN_PLATFORM_WIDTH) then False
         else if num_lt (numval (getprop p (lit ''y''))) (Fin (- 5))
                 \<or> num_lt (Fin 15) (numval (getprop p (lit ''y''))) then False
         else True))"

text \<open>
  The enemy filter. Its callback assigns \<open>e.behavior = 'patrol'\<close> on the entry itself, so
  the function returns the exception if one was raised, the entries kept, and the array
  as the caller sees it afterwards (entries after a raise are untouched).
\<close>

fun filterEnemies :: "jsval list \<Rightarrow> exn option \<times> jsval list \<times> jsval list" where
  "filterEnemies [] = (None, [], [])"
| "filterEnemies (e # es) =
     (if nullish e then (Some TypeError, [], e # es)
      else if \<not> is_number (getprop e (lit ''x'')) \<or> \<not> is_number (getprop e (lit ''y'')) then
        (case filterEnemies es of (r, kept, arr) \<Rightarrow> (r, kept, e # arr))
      else if \<not> includes_lit [''goomba'', ''koopa''] (getprop e (lit ''type'')) then
        (case filterEnemies es of (r, kept, arr) \<Rightarrow> (r, kept, e # arr))
      else
        (let e' = (if \<not> includes_lit [''patrol'', ''chase''] (getprop e (lit ''behavior''))
                   then set_prop e (lit ''behavior'') (JStr (lit ''patrol'')) else e)
         in case filterEnemies es of (r, kept, arr) \<Rightarrow> (r, e' # kept, e' # arr)))"

definition coinValid :: "jsval \<Rightarrow> exn + bool" where
  "coinValid c =
     (if nullish c then Inl TypeError
      else Inr (is_number (getprop c (lit ''x'')) \<and> is_number (getprop c (lit ''y''))))"

text \<open>\<open>{ ...c, z: 0, collected: false }\<close>; a kept coin has a numeric \<open>x\<close>, so it is an object.\<close>

definition coinNorm :: "jsval \<Rightarrow> jsval" where
  "coinNorm c =
     (case c of
        JObj kvs \<Rightarrow>
          JObj (AList.update (lit ''collected'') (JBool False)
                 (AList.update (lit ''z'') (JNum (Fin 0)) kvs))
      | _ \<Rightarrow> JObj [(lit ''z'', JNum (Fin 0)), (lit ''collected'', JBool False)])"

text \<open>The comparator \<open>(a, b) => a.x - b.x\<close> is positive.\<close>

definition byX_gt :: "jsval \<Rightarrow> jsval \<Rightarrow> bool" where
  "byX_gt a b = num_lt (Fin 0) (num_sub (numval (getprop a (lit ''x''))) (numval (getprop b (lit ''x''))))"

text \<open>The reachability loop, \<open>i\<close> being the index of the second platform of the first pair.\<close>

fun gapErrors :: "nat \<Rightarrow> jsval list \<Rightarrow> verror list" where
  "gapErrors i (p # c # rest) =
     (let prevEnd = num_add (numval (getprop p (lit ''x'')))
                      (num_div (numval (getprop p (lit ''width''))) (Fin 2));
          currStart = num_sub (numval (getprop c (lit ''x'')))
                      (num_div (numval (getprop c (lit ''width''))) (Fin 2));
          gap = num_sub currStart prevEnd;
          heightDiff = num_abs (num_sub (numval (getprop c (lit ''y''))) (numval (getprop p (lit ''y''))))
      in (if num_lt (Fin MAX_GAP) gap \<and> num_lt heightDiff (Fin 4)
          then [UnreachableGap gap (i - 1) i] else [])
         @ gapErrors (Suc i) (c # rest))"
| "gapErrors i ps = []"

definition platformNorm :: "jsval \<Rightarrow> jsval" where
  "platformNorm p =
     JObj [(lit ''x'', getprop p (lit ''x'')),
           (lit ''y'', getprop p (lit ''y'')),
           (lit ''z'', JNum (Fin 0)),
           (lit ''width'', JNum (Math_max (numval (getprop p (lit ''width''))) (Fin MIN_PLATFORM_WIDTH))),
           (lit ''height'', js_or (getprop p (lit ''height'')) (JNum (Fin 1))),
           (lit ''depth'', js_or (getprop p (lit ''depth'')) (JNum (Fin 4))),
           (lit ''type'',
              if includes_lit [''grass'', ''brick'', ''stone'', ''ice'', ''lava''] (getprop p (lit ''type''))
              then getprop p (lit ''type'') else JStr (lit ''grass''))]"

definition enemyNorm :: "jsval \<Rightarrow> jsval" where
  "enemyNorm e =
     JObj [(lit ''x'', getprop e (lit ''x'')),
           (lit ''y'', getprop e (lit ''y'')),
           (lit ''z'', JNum (Fin 0)),
           (lit ''type'', getprop e (lit ''type'')),
           (lit ''behavior'', getprop e (lit ''behavior''))]"

text \<open>\<open>{ x: pt?.x || dx, y: pt?.y || dy, z: 0 }\<close>\<close>

definition pointNorm :: "jsval \<Rightarrow> real \<Rightarrow> real \<Rightarrow> jsval" where
  "pointNorm pt dx dy =
     JObj [(lit ''x'', js_or (getprop pt (lit ''x'')) (JNum (Fin dx))),
           (lit ''y'', js_or (getprop pt (lit ''y'')) (JNum (Fin dy))),
           (lit ''z'', JNum (Fin 0))]"

text \<open>
  The errors recorded before the enemies are looked at: platform count, filtered
  platforms, spawn point, goal position.
\<close>

definition earlyErrors :: "jsval \<Rightarrow> jsval list \<Rightarrow> verror list" where
  "earlyErrors rawData validPlatforms =
     (let platforms = getprop rawData (lit ''platforms'');
          n = (case platforms of JArr xs \<Rightarrow> length xs | _ \<Rightarrow> 0);
          e1 = (if \<not> is_array platforms \<or> n = 0 then [NoPlatformsDefined]
                else if n > MAX_PLATFORMS then [TooManyPlatforms n] else []);
          e2 = e1 @ (if validPlatforms = [] \<and> e1 = [] then [NoValidPlatforms] else []);
          sp = getprop rawData (lit ''spawnPoint'');
          e3 = e2 @ (if \<not> truthy sp \<or> \<not> is_number (getprop sp (lit ''x'')) then [BadSpawnPoint] else []);
          gp = getprop rawData (lit ''goalPosition'')
      in e3 @ (if \<not> truthy gp \<or> \<not> is_number (getprop gp (lit ''x'')) then [BadGoalPosition] else []))"

text \<open>
  The object literal of the valid result. Its properties are evaluated in order;
  \<open>Math.max(1, rawData.difficulty || 1)\<close> converts its argument to a number, which can raise.
\<close>

definition levelData :: "(jsval \<Rightarrow> exn + jsnum) \<Rightarrow> jsval \<Rightarrow> jsval list \<Rightarrow> jsval list \<Rightarrow> jsval list \<Rightarrow> exn + jsval" where
  "levelData conv rawData validPlatforms validCoins validEnemies =
     (case ToNumber conv (js_or (getprop rawData (lit ''difficulty'')) (JNum (Fin 1))) of
        Inl e \<Rightarrow> Inl e
      | Inr d \<Rightarrow>
          Inr (JObj [(lit ''platforms'', JArr (map platformNorm validPlatforms)),
                     (lit ''coins'', JArr validCoins),
                     (lit ''enemies'', JArr (map enemyNorm validEnemies)),
                     (lit ''difficulty'', JNum (Math_min (Fin 10) (Math_max (Fin 1) d))),
                     (lit ''spawnPoint'', pointNorm (getprop rawData (lit ''spawnPoint'')) 2 2),
                     (lit ''goalPosition'', pointNorm (getprop rawData (lit ''goalPosition'')) 80 0)]))"

text \<open>
  \<open>validateLevelData(rawData)\<close>: what the call returns or raises, and the argument as the
  caller sees it after the call.
\<close>

definition validateLevelData :: "(jsval \<Rightarrow> exn + jsnum) \<Rightarrow> jsval \<Rightarrow> (exn + validation_result) \<times> jsval" where
  "validateLevelData conv rawData =
     (if \<not> truthy rawData \<or> \<not> typeof_object rawData then
        (Inr \<lparr>valid = False, errors = [NotAnObject], data = JNull\<rparr>, rawData)
      else
        case arrayOrEmpty (getprop rawData (lit ''platforms'')) of
          Inl e \<Rightarrow> (Inl e, rawData)
        | Inr ps \<Rightarrow>
        (case filterE platformValid ps of
          Inl e \<Rightarrow> (Inl e, rawData)
        | Inr validPlatforms \<Rightarrow>
        (case arrayOrEmpty (getprop rawData (lit ''enemies'')) of
          Inl e \<Rightarrow> (Inl e, rawData)
        | Inr es \<Rightarrow>
        (case filterEnemies es of (r, kept, arr) \<Rightarrow>
          (let rawData' = (if is_array (getprop rawData (lit ''enemies''))
                           then set_prop rawData (lit ''enemies'') (JArr arr) else rawData)
           in (case r of
            Some e \<Rightarrow> (Inl e, rawData')
          | None \<Rightarrow>
          (case arrayOrEmpty (getprop rawData (lit ''coins'')) of
            Inl e \<Rightarrow> (Inl e, rawData')
          | Inr cs \<Rightarrow>
          (case filterE coinValid cs of
            Inl e \<Rightarrow> (Inl e, rawData')
          | Inr okCoins \<Rightarrow>
            (let validEnemies = take MAX_ENEMIES kept;
                 validCoins = take MAX_COINS (map coinNorm okCoins);
                 sortedPlatforms = sort_by byX_gt validPlatforms;
                 errs = earlyErrors rawData validPlatforms @ gapErrors 1 sortedPlatforms
             in (if errs \<noteq> [] then (Inr \<lparr>valid = False, errors = errs, data = JNull\<rparr>, rawData')
                 else (case levelData conv rawData validPlatforms validCoins validEnemies of
                         Inl e \<Rightarrow> (Inl e, rawData')
                       | Inr d \<Rightarrow> (Inr \<lparr>valid = True, errors = [], data = d\<rparr>, rawData'))))))))))))"

text \<open>The platforms of a returned document.\<close>

definition dataPlatforms :: "validation_result \<Rightarrow> jsval list" where
  "dataPlatforms r = (case getprop (data r) (lit ''platforms'') of JArr ps \<Rightarrow> ps | _ \<Rightarrow> [])"

text \<open>
  An enemy entry that the filter keeps and whose behavior it overwrites: numeric \<open>x\<close> and
  \<open>y\<close>, a type of the whitelist, a behavior outside \<open>patrol\<close> and \<open>chase\<close>.
\<close>

definition needsCoercion :: "jsval \<Rightarrow> bool" where
  "needsCoercion e =
     (is_number (getprop e (lit ''x'')) \<and> is_number (getprop e (lit ''y''))
      \<and> includes_lit [''goomba'', ''koopa''] (getprop e (lit ''type''))
      \<and> \<not> includes_lit [''patrol'', ''chase''] (getprop e (lit ''behavior'')))"

definition coerceEnemy :: "jsval \<Rightarrow> jsval" where
  "coerceEnemy e = (if needsCoercion e then set_prop e (lit ''behavior'') (JStr (lit ''patrol'')) else e)"

text \<open>Sample documents.\<close>

definition plat :: "jsnum \<Rightarrow> jsnum \<Rightarrow> jsnum \<Rightarrow> jsval" where
  "plat x y w = JObj [(lit ''x'', JNum x), (lit ''y'', JNum y), (lit ''width'', JNum w)]"

definition point :: "jsnum \<Rightarrow> jsnum \<Rightarrow> jsval" where
  "point x y = JObj [(lit ''x'', JNum x), (lit ''y'', JNum y)]"

definition level_null_platform :: jsval where
  "level_null_platform = JObj [(lit ''platforms'', JArr [JNull])]"

definition level_infinite :: jsval where
  "level_infinite =
     JObj [(lit ''platforms'', JArr [plat PInf (Fin 0) (Fin 4), plat (Fin 0) NaN NaN]),
           (lit ''spawnPoint'', point (Fin 2) (Fin 2)),
           (lit ''goalPosition'', point (Fin 80) (Fin 0))]"

definition level_spawn_zero :: jsval where
  "level_spawn_zero =
     JObj [(lit ''platforms'', JArr [plat (Fin 0) (Fin 0) (Fin 20)]),
           (lit ''spawnPoint'', point (Fin 0) (Fin 2)),
           (lit ''goalPosition'', point (Fin 0) (Fin 1))]"

definition level_ok :: jsval where
  "level_ok =
     JObj [(lit ''platforms'', JArr [plat (Fin 0) (Fin 0) (Fin 20), plat (Fin 14) (Fin 1) (Fin 4)]),
           (lit ''spawnPoint'', point (Fin 2) (Fin 2)),
           (lit ''goalPosition'', point (Fin 80) (Fin 0))]"

definition enemy_fly :: jsval where
  "enemy_fly = JObj [(lit ''x'', JNum (Fin 5)), (lit ''y'', JNum (Fin 1)),
                     (lit ''type'', JStr (lit ''goomba'')), (lit ''behavior'', JStr (lit ''fly''))]"

definition level_no_platforms :: jsval where
  "level_no_platforms = JObj [(lit ''platforms'', JArr []), (lit ''enemies'', JArr [enemy_fly])]"

definition level_null_platform_fly :: jsval where
  "level_null_platform_fly = JObj [(lit ''platforms'', JArr [JNull]), (lit ''enemies'', JArr [enemy_fly])]"
section \<open>Difficulty engine (difficultyEngine.js)\<close>

text \<open>
  The statistics object. Its fields are numbers; a field that is absent or \<open>undefined\<close> is
  \<open>None\<close> and takes the default of the destructuring pattern.
\<close>

record stats =
  deaths :: "jsnum option"
  completionTime :: "jsnum option"
  coinsCollected :: "jsnum option"
  totalCoins :: "jsnum option"
  currentDifficulty :: "jsnum option"

definition dflt :: "real \<Rightarrow> jsnum option \<Rightarrow> jsnum" where
  "dflt d v = (case v of None \<Rightarrow> Fin d | Some n \<Rightarrow> n)"

text \<open>
  In the three factors and in the function, \<open>d\<close>, \<open>t\<close>, \<open>cc\<close>, \<open>tc\<close> and \<open>cd\<close> are the
  parameters \<open>deaths\<close>, \<open>completionTime\<close>, \<open>coinsCollected\<close>, \<open>totalCoins\<close> and
  \<open>currentDifficulty\<close> after defaulting.
\<close>

text \<open>Factor 1: deaths.\<close>

definition deathsDelta :: "jsnum \<Rightarrow> int" where
  "deathsDelta d =
     (if num_le (Fin 5) d then - 2
      else if num_le (Fin 3) d then - 1
      else if d = Fin 0 then 1
      else 0)"

text \<open>Factor 2: completion time per platform.\<close>

definition paceDelta :: "jsnum \<Rightarrow> jsnum \<Rightarrow> int" where
  "paceDelta t cd =
     (let timePerPlatform = num_div t (Math_max (Fin 1) (num_mul cd (Fin 3)))
      in if num_lt timePerPlatform (Fin 3) then 1
         else if num_lt (Fin 10) timePerPlatform then - 1
         else 0)"

text \<open>Factor 3: coin collection ratio; the thresholds are the decimals 0.9 and 0.3.\<close>

definition coinDelta :: "jsnum \<Rightarrow> jsnum \<Rightarrow> int" where
  "coinDelta cc tc =
     (let coinRatio = (if num_lt (Fin 0) tc then num_div cc tc else Fin 0)
      in if num_lt (Fin (9 / 10)) coinRatio then 1
         else if num_lt coinRatio (Fin (3 / 10)) then - 1
         else 0)"

definition calculateNextDifficulty :: "stats \<Rightarrow> jsnum" where
  "calculateNextDifficulty s =
     (let d = dflt 0 (deaths s);
          t = dflt 60 (completionTime s);
          cc = dflt 0 (coinsCollected s);
          tc = dflt 1 (totalCoins s);
          cd = dflt 1 (currentDifficulty s);
          delta = deathsDelta d + paceDelta t cd + coinDelta cc tc;
          newDifficulty = num_add cd (Fin (of_int delta))
      in Math_min (Fin MAX_DIFFICULTY) (Math_max (Fin MIN_DIFFICULTY) newDifficulty))"

text \<open>The clamp of the last line, \<open>Math.min(MAX_DIFFICULTY, Math.max(MIN_DIFFICULTY, n))\<close>.\<close>

definition clampD :: "jsnum \<Rightarrow> jsnum" where
  "clampD n = Math_min (Fin MAX_DIFFICULTY) (Math_max (Fin MIN_DIFFICULTY) n)"

text \<open>Sample statistics.\<close>

definition stats_mid :: stats where
  "stats_mid = \<lparr>deaths = Some (Fin 1), completionTime = Some (Fin 60),
                 coinsCollected = Some (Fin 5), totalCoins = Some (Fin 10),
                 currentDifficulty = Some (Fin 5)\<rparr>"

section \<open>Strings and regular expressions\<close>

text \<open>
  The code units that \<open>\s\<close> matches and that \<open>trim()\<close> strips: the white space and the line
  terminators of ECMAScript.
\<close>

definition js_ws :: "nat \<Rightarrow> bool" where
  "js_ws c =
     (c = 9 \<or> c = 10 \<or> c = 11 \<or> c = 12 \<or> c = 13 \<or> c = 32 \<or> c = 160 \<or> c = 5760
      \<or> (8192 \<le> c \<and> c \<le> 8202) \<or> c = 8232 \<or> c = 8233 \<or> c = 8239 \<or> c = 8287
      \<or> c = 12288 \<or> c = 65279)"

definition js_trim :: "jsstring \<Rightarrow> jsstring" where
  "js_trim s = rev (dropWhile js_ws (rev (dropWhile js_ws s)))"

text \<open>
  The regular expressions of the source, as a datatype. Every quantifier of the source
  but one is over a character class (\<open>Star\<close> greedy, \<open>StarLazy\<close> lazy); the one group under
  \<open>?\<close> cannot match the empty string. \<open>Grp\<close> is the capture group.
\<close>

datatype rx =
    Chr "nat \<Rightarrow> bool"
  | Eps
  | Seq rx rx
  | Opt rx
  | Star "nat \<Rightarrow> bool"
  | StarLazy "nat \<Rightarrow> bool"
  | WordB
  | Grp rx

text \<open>
  A position in the subject: the text before it (reversed), the text from it on, and
  what the capture group holds.
\<close>

type_synonym mstate = "jsstring \<times> jsstring \<times> jsstring option"

text \<open>
  The positions a quantified class can end at, in the order backtracking tries them:
  longest first when greedy, shortest first when lazy.
\<close>

fun star_greedy :: "(nat \<Rightarrow> bool) \<Rightarrow> jsstring \<Rightarrow> jsstring \<Rightarrow> (jsstring \<times> jsstring) list" where
  "star_greedy P b [] = [(b, [])]"
| "star_greedy P b (c # cs) = (if P c then star_greedy P (c # b) cs else []) @ [(b, c # cs)]"

fun star_lazy :: "(nat \<Rightarrow> bool) \<Rightarrow> jsstring \<Rightarrow> jsstring \<Rightarrow> (jsstring \<times> jsstring) list" where
  "star_lazy P b [] = [(b, [])]"
| "star_lazy P b (c # cs) = (b, c # cs) # (if P c then star_lazy P (c # b) cs else [])"

text \<open>\<open>\b\<close>: exactly one of the two neighbours is a word character \<open>[A-Za-z0-9_]\<close>.\<close>

definition is_word :: "nat \<Rightarrow> bool" where
  "is_word c = ((48 \<le> c \<and> c \<le> 57) \<or> (65 \<le> c \<and> c \<le> 90) \<or> c = 95 \<or> (97 \<le> c \<and> c \<le> 122))"

definition at_word_boundary :: "jsstring \<Rightarrow> jsstring \<Rightarrow> bool" where
  "at_word_boundary b s = ((b \<noteq> [] \<and> is_word (hd b)) \<noteq> (s \<noteq> [] \<and> is_word (hd s)))"

text \<open>
  All the ways the expression matches at a position, as the positions after the match, in
  the order backtracking finds them: the head is the match JavaScript takes.
\<close>

fun rx_match :: "rx \<Rightarrow> mstate \<Rightarrow> mstate list" where
  "rx_match (Chr P) (b, s, g) =
     (case s of [] \<Rightarrow> [] | c # cs \<Rightarrow> if P c then [(c # b, cs, g)] else [])"
| "rx_match Eps st = [st]"
| "rx_match (Seq r1 r2) st = concat (map (rx_match r2) (rx_match r1 st))"
| "rx_match (Opt r) st = rx_match r st @ [st]"
| "rx_match (Star P) (b, s, g) = map (\<lambda>(b', s'). (b', s', g)) (star_greedy P b s)"
| "rx_match (StarLazy P) (b, s, g) = map (\<lambda>(b', s'). (b', s', g)) (star_lazy P b s)"
| "rx_match WordB (b, s, g) = (if at_word_boundary b s then [(b, s, g)] else [])"
| "rx_match (Grp r) (b, s, g) =
     map (\<lambda>(b', s', g'). (b', s', Some (rev (take (length b' - length b) b'))))
       (rx_match r (b, s, g))"

text \<open>A literal, case-sensitive and under the \<open>i\<close> flag (the literals are ASCII).\<close>

definition upper :: "nat \<Rightarrow> nat" where
  "upper c = (if 97 \<le> c \<and> c \<le> 122 then c - 32 else c)"

fun lits :: "jsstring \<Rightarrow> rx" where
  "lits [] = Eps"
| "lits (c # cs) = Seq (Chr (\<lambda>d. d = c)) (lits cs)"

fun litsi :: "jsstring \<Rightarrow> rx" where
  "litsi [] = Eps"
| "litsi (c # cs) = Seq (Chr (\<lambda>d. upper d = upper c)) (litsi cs)"

fun seqs :: "rx list \<Rightarrow> rx" where
  "seqs [] = Eps"
| "seqs (r # rs) = Seq r (seqs rs)"

text \<open>\<open>[\s\S]\<close>, \<open>.\<close> and \<open>[^>]\<close>\<close>

definition any_unit :: "nat \<Rightarrow> bool" where
  "any_unit c = True"

definition dot :: "nat \<Rightarrow> bool" where
  "dot c = (c \<noteq> 10 \<and> c \<noteq> 13 \<and> c \<noteq> 8232 \<and> c \<noteq> 8233)"

definition not_gt :: "nat \<Rightarrow> bool" where
  "not_gt c = (c \<noteq> 62)"

text \<open>
  \<open>text.match(r)\<close> without the \<open>g\<close> flag: the first position, from the left, where the
  expression matches, and the match taken there.
\<close>

fun rx_search :: "rx \<Rightarrow> jsstring \<Rightarrow> jsstring \<Rightarrow> mstate option" where
  "rx_search r b [] = (case rx_match r (b, [], None) of [] \<Rightarrow> None | st # sts \<Rightarrow> Some st)"
| "rx_search r b (c # cs) =
     (case rx_match r (b, c # cs, None) of
        [] \<Rightarrow> rx_search r (c # b) cs
      | st # sts \<Rightarrow> Some st)"

text \<open>
  \<open>text.replace(r, repl)\<close> with the \<open>g\<close> flag, from a position on: a match is replaced and
  the scan goes on after it; after an empty match the scan copies one code unit.
\<close>

function replace_all :: "rx \<Rightarrow> jsstring \<Rightarrow> jsstring \<Rightarrow> jsstring \<Rightarrow> jsstring" where
  "replace_all r repl b [] = (case rx_match r (b, [], None) of [] \<Rightarrow> [] | st # sts \<Rightarrow> repl)"
| "replace_all r repl b (c # cs) =
     (case rx_match r (b, c # cs, None) of
        [] \<Rightarrow> c # replace_all r repl (c # b) cs
      | (b', s', g) # sts \<Rightarrow>
          if length s' < Suc (length cs) then repl @ replace_all r repl b' s'
          else repl @ c # replace_all r repl (c # b) cs)"
  by pat_completeness auto
termination
  by (relation "measure (\<lambda>(r, repl, b, s). length s)") auto

section \<open>Input sanitizer (sanitize.js)\<close>

definition ws_plus :: rx where
  "ws_plus = Seq (Chr js_ws) (Star js_ws)"

definition backticks :: jsstring where
  "backticks = [96, 96, 96]"

text \<open>
  The seven patterns, in the order of the source:
  \<open>/ignore\s+(all\s+)?previous\s+instructions/gi\<close>, \<open>/you\s+are\s+now/gi\<close>,
  \<open>/system\s*:\s*/gi\<close>, \<open>/\bpretend\b.*\byou\b/gi\<close>, the fenced block (three backticks,
  \<open>[\s\S]*\<close>, three backticks, flag \<open>g\<close>), \<open>/<script[\s\S]*?<\/script>/gi\<close>, \<open>/<[^>]+>/g\<close>.
\<close>

definition pat_ignore :: rx where
  "pat_ignore = seqs [litsi (lit ''ignore''), ws_plus, Opt (Seq (litsi (lit ''all'')) ws_plus),
                      litsi (lit ''previous''), ws_plus, litsi (lit ''instructions'')]"

definition pat_you_are_now :: rx where
  "pat_you_are_now = seqs [litsi (lit ''you''), ws_plus, litsi (lit ''are''), ws_plus, litsi (lit ''now'')]"

definition pat_system :: rx where
  "pat_system = seqs [litsi (lit ''system''), Star js_ws, litsi (lit '':''), Star js_ws]"

definition pat_pretend :: rx where
  "pat_pretend = seqs [WordB, litsi (lit ''pretend''), WordB, Star dot, WordB, litsi (lit ''you''), WordB]"

definition pat_fence :: rx where
  "pat_fence = seqs [lits backticks, Star any_unit, lits backticks]"

definition pat_script :: rx where
  "pat_script = seqs [litsi (lit ''<script''), StarLazy any_unit, litsi (lit ''</script>'')]"

definition pat_tag :: rx where
  "pat_tag = seqs [lits (lit ''<''), Chr not_gt, Star not_gt, lits (lit ''>'')]"

definition INJECTION_PATTERNS :: "rx list" where
  "INJECTION_PATTERNS =
     [pat_ignore, pat_you_are_now, pat_system, pat_pretend, pat_fence, pat_script, pat_tag]"

text \<open>
  \<open>s.substring(0, m)\<close>: the end is \<open>m\<close> truncated to an integer, NaN counting as 0, and
  clamped to the length of the string.
\<close>

definition substring0 :: "jsstring \<Rightarrow> jsnum \<Rightarrow> jsstring" where
  "substring0 s m =
     take (case m of
             NaN \<Rightarrow> 0
           | NInf \<Rightarrow> 0
           | PInf \<Rightarrow> length s
           | Fin r \<Rightarrow> if r \<le> 0 then 0 else nat \<lfloor>r\<rfloor>) s"

text \<open>
  \<open>sanitizeInput(input, maxLength = 200)\<close>; \<open>maxLength\<close> is a number, \<open>None\<close> when the
  argument is left out.
\<close>

definition sanitizeInput :: "jsval \<Rightarrow> jsnum option \<Rightarrow> jsstring" where
  "sanitizeInput input maxLength =
     (case input of
        JStr s \<Rightarrow>
          (let cleaned1 = fold (\<lambda>pattern cleaned. replace_all pattern [] [] cleaned)
                            INJECTION_PATTERNS s;
               cleaned2 = js_trim (replace_all ws_plus (lit '' '') [] cleaned1)
           in if num_lt (dflt 200 maxLength) (Fin (real (length cleaned2)))
              then substring0 cleaned2 (dflt 200 maxLength)
              else cleaned2)
      | _ \<Rightarrow> [])"

text \<open>The two tests of the sanitizer's promise: the text matches the pattern somewhere.\<close>

definition has_fenced_block :: "jsstring \<Rightarrow> bool" where
  "has_fenced_block t = (rx_search pat_fence [] t \<noteq> None)"

definition has_script_block :: "jsstring \<Rightarrow> bool" where
  "has_script_block t = (rx_search pat_script [] t \<noteq> None)"

text \<open>The text holds three backticks in a row somewhere.\<close>

fun has_backticks :: "jsstring \<Rightarrow> bool" where
  "has_backticks (a # b # c # r) = ((a = 96 \<and> b = 96 \<and> c = 96) \<or> has_backticks (b # c # r))"
| "has_backticks s = False"

text \<open>
  A fenced block starts at the head of the text: three backticks, and three backticks
  again at least three places further; and such a block starts somewhere in the text.
\<close>

definition fence_at :: "jsstring \<Rightarrow> bool" where
  "fence_at s = (take 3 s = backticks \<and> has_backticks (drop 3 s))"

fun fence_somewhere :: "jsstring \<Rightarrow> bool" where
  "fence_somewhere [] = False"
| "fence_somewhere (c # cs) = (fence_at (c # cs) \<or> fence_somewhere cs)"

text \<open>A text in which every \<open><\<close> is directly followed by \<open>>\<close> or has no \<open>>\<close> after it.\<close>

fun tag_free :: "jsstring \<Rightarrow> bool" where
  "tag_free [] = True"
| "tag_free (c # cs) =
     ((c = 60 \<longrightarrow> (case cs of [] \<Rightarrow> True | d # ds \<Rightarrow> d = 62 \<or> 62 \<notin> set ds)) \<and> tag_free cs)"

text \<open>
  Sample inputs: two backticks, a tag, a backtick, twice, around a word; a fenced block
  between letters; a script element.
\<close>

definition input_split_fence :: jsstring where
  "input_split_fence = [96, 96] @ lit ''<b>'' @ [96] @ lit '' rm '' @ [96, 96] @ lit ''<b>'' @ [96]"

definition input_fenced :: jsstring where
  "input_fenced = lit ''a'' @ backticks @ lit ''x'' @ backticks @ lit ''b  c''"

definition input_script :: jsstring where
  "input_script = lit ''a <script>x</script>  b''"

section \<open>JSON.parse\<close>

text \<open>
  The JSON grammar of ECMA-404, which \<open>JSON.parse\<close> accepts: white space is tab, line feed,
  carriage return and space. A number is read as the decimal it denotes (see the note
  on numbers: no rounding, no overflow to infinity).
\<close>

definition json_ws :: "nat \<Rightarrow> bool" where
  "json_ws c = (c = 9 \<or> c = 10 \<or> c = 13 \<or> c = 32)"

definition skip_ws :: "jsstring \<Rightarrow> jsstring" where
  "skip_ws s = dropWhile json_ws s"

definition is_digit :: "nat \<Rightarrow> bool" where
  "is_digit c = (48 \<le> c \<and> c \<le> 57)"

definition digits_val :: "jsstring \<Rightarrow> nat" where
  "digits_val ds = foldl (\<lambda>a c. 10 * a + (c - 48)) 0 ds"

definition hex_val :: "nat \<Rightarrow> nat option" where
  "hex_val c =
     (if 48 \<le> c \<and> c \<le> 57 then Some (c - 48)
      else if 65 \<le> c \<and> c \<le> 70 then Some (c - 55)
      else if 97 \<le> c \<and> c \<le> 102 then Some (c - 87)
      else None)"

text \<open>The character after a backslash: quote, backslash, slash, b, f, n, r, t.\<close>

definition escape_val :: "nat \<Rightarrow> nat option" where
  "escape_val e =
     (if e = 34 then Some 34 else if e = 92 then Some 92 else if e = 47 then Some 47
      else if e = 98 then Some 8 else if e = 102 then Some 12 else if e = 110 then Some 10
      else if e = 114 then Some 13 else if e = 116 then Some 9 else None)"

definition prepend :: "'a \<Rightarrow> ('a list \<times> 'b) option \<Rightarrow> ('a list \<times> 'b) option" where
  "prepend x r = (case r of None \<Rightarrow> None | Some (t, rest) \<Rightarrow> Some (x # t, rest))"

text \<open>
  A string, from after its opening quote: the code units it denotes and the text after
  its closing quote. The mode says whether a backslash or the hexadecimal digits of a
  \<open>\u\<close> escape are being read.
\<close>

datatype smode = Plain | Escaped | Hex nat nat

fun json_string :: "smode \<Rightarrow> jsstring \<Rightarrow> (jsstring \<times> jsstring) option" where
  "json_string m [] = None"
| "json_string Plain (c # cs) =
     (if c = 34 then Some ([], cs)
      else if c = 92 then json_string Escaped cs
      else if c < 32 then None
      else prepend c (json_string Plain cs))"
| "json_string Escaped (e # cs) =
     (if e = 117 then json_string (Hex 4 0) cs
      else case escape_val e of
             None \<Rightarrow> None
           | Some x \<Rightarrow> prepend x (json_string Plain cs))"
| "json_string (Hex k acc) (h # cs) =
     (case hex_val h of
        None \<Rightarrow> None
      | Some d \<Rightarrow>
          if k \<le> 1 then prepend (16 * acc + d) (json_string Plain cs)
          else json_string (Hex (k - 1) (16 * acc + d)) cs)"

text \<open>
  A number: an optional minus, an integer part without leading zeros, an optional
  fraction, an optional exponent.
\<close>

definition json_number :: "jsstring \<Rightarrow> (jsnum \<times> jsstring) option" where
  "json_number s =
     (let neg = (s \<noteq> [] \<and> hd s = 45);
          s1 = (if neg then tl s else s);
          ds = takeWhile is_digit s1
      in if ds = [] then None
         else
           (let ip = (if hd ds = 48 then [48] else ds);
                s2 = drop (length ip) s1;
                hasfrac = (s2 \<noteq> [] \<and> hd s2 = 46);
                fs = (if hasfrac then takeWhile is_digit (tl s2) else []);
                s3 = (if hasfrac then drop (length fs) (tl s2) else s2);
                hasexp = (s3 \<noteq> [] \<and> (hd s3 = 101 \<or> hd s3 = 69));
                s4 = (if hasexp then tl s3 else s3);
                eneg = (hasexp \<and> s4 \<noteq> [] \<and> hd s4 = 45);
                s5 = (if hasexp \<and> s4 \<noteq> [] \<and> (hd s4 = 45 \<or> hd s4 = 43) then tl s4 else s4);
                es = (if hasexp then takeWhile is_digit s5 else []);
                s6 = (if hasexp then drop (length es) s5 else s3);
                mant = real (digits_val ip) + real (digits_val fs) / 10 ^ length fs;
                val = (if eneg then mant / 10 ^ digits_val es else mant * 10 ^ digits_val es)
            in if (hasfrac \<and> fs = []) \<or> (hasexp \<and> es = []) then None
               else Some (Fin (if neg then - val else val), s6)))"

text \<open>
  A value, the elements of a non-empty array and the members of a non-empty object,
  each from its first character. The first argument bounds the depth of the calls; a
  call consumes a character at least every second level, so twice the length of the
  text is enough. A repeated key keeps its first place and takes its last value.
\<close>

fun json_value :: "nat \<Rightarrow> jsstring \<Rightarrow> (jsval \<times> jsstring) option"
and json_elements :: "nat \<Rightarrow> jsstring \<Rightarrow> (jsval list \<times> jsstring) option"
and json_members :: "nat \<Rightarrow> jsstring \<Rightarrow> ((jsstring \<times> jsval) list \<times> jsstring) option"
where
  "json_value 0 s = None"
| "json_value (Suc n) [] = None"
| "json_value (Suc n) (c # cs) =
     (if c = 123 then
        (case skip_ws cs of
           [] \<Rightarrow> None
         | d # r \<Rightarrow>
             if d = 125 then Some (JObj [], r)
             else (case json_members n (d # r) of
                     None \<Rightarrow> None
                   | Some (kvs, rest) \<Rightarrow>
                       Some (JObj (fold (\<lambda>kv obj. AList.update (fst kv) (snd kv) obj) kvs []), rest)))
      else if c = 91 then
        (case skip_ws cs of
           [] \<Rightarrow> None
         | d # r \<Rightarrow>
             if d = 93 then Some (JArr [], r)
             else (case json_elements n (d # r) of
                     None \<Rightarrow> None
                   | Some (vs, rest) \<Rightarrow> Some (JArr vs, rest)))
      else if c = 34 then
        (case json_string Plain cs of
           None \<Rightarrow> None
         | Some (t, rest) \<Rightarrow> Some (JStr t, rest))
      else if take 4 (c # cs) = lit ''true'' then Some (JBool True, drop 4 (c # cs))
      else if take 5 (c # cs) = lit ''false'' then Some (JBool False, drop 5 (c # cs))
      else if take 4 (c # cs) = lit ''null'' then Some (JNull, drop 4 (c # cs))
      else (case json_number (c # cs) of
              None \<Rightarrow> None
            | Some (x, rest) \<Rightarrow> Some (JNum x, rest)))"
| "json_elements 0 s = None"
| "json_elements (Suc n) s =
     (case json_value n s of
        None \<Rightarrow> None
      | Some (v, r) \<Rightarrow>
          (case skip_ws r of
             [] \<Rightarrow> None
           | d # r' \<Rightarrow>
               if d = 93 then Some ([v], r')
               else if d = 44 then
                 (case json_elements n (skip_ws r') of
                    None \<Rightarrow> None
                  | Some (vs, rest) \<Rightarrow> Some (v # vs, rest))
               else None))"
| "json_members 0 s = None"
| "json_members (Suc n) [] = None"
| "json_members (Suc n) (q # cs) =
     (if q \<noteq> 34 then None
      else case json_string Plain cs of
             None \<Rightarrow> None
           | Some (k, r) \<Rightarrow>
               (case skip_ws r of
                  [] \<Rightarrow> None
                | col # r1 \<Rightarrow>
                    if col \<noteq> 58 then None
                    else (case json_value n (skip_ws r1) of
                            None \<Rightarrow> None
                          | Some (v, r2) \<Rightarrow>
                              (case skip_ws r2 of
                                 [] \<Rightarrow> None
                               | d # r3 \<Rightarrow>
                                   if d = 125 then Some ([(k, v)], r3)
                                   else if d = 44 then
                                     (case json_members n (skip_ws r3) of
                                        None \<Rightarrow> None
                                      | Some (kvs, rest) \<Rightarrow> Some ((k, v) # kvs, rest))
                                   else None))))"

text \<open>\<open>JSON.parse(text)\<close>; \<open>None\<close> is the SyntaxError it throws.\<close>

definition JSON_parse :: "jsstring \<Rightarrow> jsval option" where
  "JSON_parse text =
     (case json_value (2 * length text + 2) (skip_ws text) of
        None \<Rightarrow> None
      | Some (v, rest) \<Rightarrow> if skip_ws rest = [] then Some v else None)"

section \<open>Extraction of the level document (the generate-level handler)\<close>

text \<open>
  The pattern of the handler: three backticks, \<open>(?:json)?\<close>, \<open>\s*\<close>, the group
  \<open>([\s\S]*?)\<close>, three backticks.
\<close>

definition json_fence :: rx where
  "json_fence = seqs [lits backticks, Opt (lits (lit ''json'')), Star js_ws,
                      Grp (StarLazy any_unit), lits backticks]"

text \<open>\<open>jsonStr\<close>: the group of the first match, or the whole text when nothing matches.\<close>

definition extractJson :: "jsstring \<Rightarrow> jsstring" where
  "extractJson text =
     (case rx_search json_fence [] text of
        Some (b, s, Some captured) \<Rightarrow> captured
      | _ \<Rightarrow> text)"

text \<open>\<open>JSON.parse(jsonStr.trim())\<close>\<close>

definition parseLevel :: "jsstring \<Rightarrow> jsval option" where
  "parseLevel text = JSON_parse (js_trim (extractJson text))"

text \<open>An interior text wrapped as a fenced block tagged \<open>json\<close>, each fence on its own line.\<close>

definition fenced :: "jsstring \<Rightarrow> jsstring" where
  "fenced s = backticks @ lit ''json'' @ [10] @ s @ [10] @ backticks"

text \<open>Sample interior: the JSON string literal whose content is three backticks.\<close>

definition interior_backticks :: jsstring where
  "interior_backticks = [34] @ backticks @ [34]"

text \<open>Sample interior: an object with one member, with spaces around it.\<close>

definition interior_object :: jsstring where
  "interior_object = lit '' {'' @ [34] @ lit ''x'' @ [34] @ lit '': 1} ''"

section \<open>The proxy server: rate limiter, dialog cache, handlers\<close>

text \<open>
  The process-wide state: the rate limiter's table, the dialog cache in insertion order,
  and the prompts sent to the backend so far. Requests are handled one at a time.
\<close>

record window =
  count :: int
  firstRequest :: int

record server =
  rateLimiter :: "jsstring \<Rightarrow> window option"
  npcCache :: "(jsval \<times> jsstring) list"
  backendCalls :: "jsstring list"

definition RATE_LIMIT_WINDOW :: int where "RATE_LIMIT_WINDOW = 10000"
definition MAX_REQUESTS :: int where "MAX_REQUESTS = 5"

datatype decision = Next | Rejected

text \<open>\<open>req.ip || 'unknown'\<close>\<close>

definition clientKey :: "jsstring option \<Rightarrow> jsstring" where
  "clientKey req_ip =
     (case req_ip of None \<Rightarrow> lit ''unknown'' | Some a \<Rightarrow> if a = [] then lit ''unknown'' else a)"

text \<open>
  The middleware \<open>rateLimit\<close>, at time \<open>now\<close> (milliseconds): whether it calls \<open>next()\<close> or
  answers 429, and the table afterwards.
\<close>

definition rateLimit ::
  "jsstring option \<Rightarrow> int \<Rightarrow> (jsstring \<Rightarrow> window option) \<Rightarrow> decision \<times> (jsstring \<Rightarrow> window option)" where
  "rateLimit req_ip now table =
     (let ip = clientKey req_ip;
          windowData = (case table ip of None \<Rightarrow> \<lparr>count = 0, firstRequest = now\<rparr> | Some w \<Rightarrow> w)
      in if now - firstRequest windowData > RATE_LIMIT_WINDOW then
           (Next, table(ip \<mapsto> \<lparr>count = 1, firstRequest = now\<rparr>))
         else if count windowData \<ge> MAX_REQUESTS then (Rejected, table)
         else (Next, table(ip \<mapsto> windowData\<lparr>count := count windowData + 1\<rparr>)))"

text \<open>
  The cache is a \<open>Map\<close>: keys are compared by value when primitive; an object or array
  key of a request body is a fresh object, equal to no key already stored.
\<close>

fun is_primitive :: "jsval \<Rightarrow> bool" where
  "is_primitive (JArr xs) = False"
| "is_primitive (JObj kvs) = False"
| "is_primitive v = True"

definition cache_has :: "jsval \<Rightarrow> (jsval \<times> jsstring) list \<Rightarrow> bool" where
  "cache_has k c = (is_primitive k \<and> k \<in> fst ` set c)"

definition cache_get :: "jsval \<Rightarrow> (jsval \<times> jsstring) list \<Rightarrow> jsstring" where
  "cache_get k c = (case map_of c k of None \<Rightarrow> [] | Some v \<Rightarrow> v)"

definition cache_set :: "jsval \<Rightarrow> jsstring \<Rightarrow> (jsval \<times> jsstring) list \<Rightarrow> (jsval \<times> jsstring) list" where
  "cache_set k v c =
     (if cache_has k c then map (\<lambda>kv. if fst kv = k then (k, v) else kv) c else c @ [(k, v)])"

text \<open>\<open>if (npcCache.size > 100) npcCache.delete(npcCache.keys().next().value)\<close>\<close>

definition evict :: "(jsval \<times> jsstring) list \<Rightarrow> (jsval \<times> jsstring) list" where
  "evict c = (if length c > 100 then tl c else c)"

text \<open>
  The responses: 429, 400 with its message, 200 with the parsed level, 500 with
  \<open>fallback: true\<close>, 200 with the dialog and the \<open>cached\<close> flag, 500 with the fallback line.
\<close>

datatype response =
    TooManyRequests
  | BadRequest string
  | LevelData jsval
  | LevelFailed
  | Dialog jsstring bool
  | DialogFailed

text \<open>
  The handler of \<open>POST /api/generate-level\<close>. \<open>backend prompt\<close> is the text the model
  returns for the prompt, \<open>None\<close> when the call fails. Destructuring a missing body raises
  inside the \<open>try\<close>.
\<close>

definition generateLevel :: "(jsstring \<Rightarrow> jsstring option) \<Rightarrow> jsval \<Rightarrow> server \<Rightarrow> response \<times> server" where
  "generateLevel backend body srv =
     (if nullish body then (LevelFailed, srv)
      else case getprop body (lit ''prompt'') of
        JStr prompt \<Rightarrow>
          if prompt = [] then (BadRequest ''Prompt is required'', srv)
          else if length prompt > 3000 then (BadRequest ''Prompt too long'', srv)
          else
            (let srv' = srv\<lparr>backendCalls := backendCalls srv @ [prompt]\<rparr>
             in case backend prompt of
                  None \<Rightarrow> (LevelFailed, srv')
                | Some text \<Rightarrow>
                    (case parseLevel text of
                       None \<Rightarrow> (LevelFailed, srv')
                     | Some parsed \<Rightarrow> (LevelData parsed, srv')))
      | _ \<Rightarrow> (BadRequest ''Prompt is required'', srv))"

text \<open>The handler of \<open>POST /api/npc-dialog\<close>.\<close>

definition npcDialog :: "(jsstring \<Rightarrow> jsstring option) \<Rightarrow> jsval \<Rightarrow> server \<Rightarrow> response \<times> server" where
  "npcDialog backend body srv =
     (if nullish body then (DialogFailed, srv)
      else case getprop body (lit ''prompt'') of
        JStr prompt \<Rightarrow>
          if prompt = [] then (BadRequest ''Prompt is required'', srv)
          else
            (let cacheKey = getprop body (lit ''cacheKey'')
             in if truthy cacheKey \<and> cache_has cacheKey (npcCache srv)
                then (Dialog (cache_get cacheKey (npcCache srv)) True, srv)
                else
                  (let srv' = srv\<lparr>backendCalls := backendCalls srv @ [prompt]\<rparr>
                   in case backend prompt of
                        None \<Rightarrow> (DialogFailed, srv')
                      | Some text \<Rightarrow>
                          (let dialog = js_trim text
                           in (Dialog dialog False,
                               if truthy cacheKey
                               then srv'\<lparr>npcCache := evict (cache_set cacheKey dialog (npcCache srv'))\<rparr>
                               else srv'))))
      | _ \<Rightarrow> (BadRequest ''Prompt is required'', srv))"

text \<open>A request, and a route with its middleware.\<close>

datatype route = GenerateLevel | NpcDialog

record request =
  ip :: "jsstring option"
  route :: route
  body :: jsval

definition handle ::
  "(jsstring \<Rightarrow> jsstring option) \<Rightarrow> int \<Rightarrow> request \<Rightarrow> server \<Rightarrow> response \<times> server" where
  "handle backend now req srv =
     (case rateLimit (ip req) now (rateLimiter srv) of
        (Rejected, table) \<Rightarrow> (TooManyRequests, srv\<lparr>rateLimiter := table\<rparr>)
      | (Next, table) \<Rightarrow>
          (case route req of
             GenerateLevel \<Rightarrow> generateLevel backend (body req) (srv\<lparr>rateLimiter := table\<rparr>)
           | NpcDialog \<Rightarrow> npcDialog backend (body req) (srv\<lparr>rateLimiter := table\<rparr>)))"

text \<open>Sample requests and states.\<close>

definition dialog_request :: "jsstring \<Rightarrow> jsstring \<Rightarrow> request" where
  "dialog_request prompt key =
     \<lparr>ip = Some (lit ''10.0.0.1''), route = NpcDialog,
      body = JObj [(lit ''prompt'', JStr prompt), (lit ''cacheKey'', JStr key)]\<rparr>"

definition server_cached :: server where
  "server_cached = \<lparr>rateLimiter = Map.empty, npcCache = [(JStr (lit ''k''), lit ''hello'')],
                     backendCalls = []\<rparr>"

definition server_full :: server where
  "server_full = \<lparr>rateLimiter = Map.empty,
                   npcCache = map (\<lambda>i. (JNum (Fin (real i)), lit ''hello'')) [0..<100],
                   backendCalls = []\<rparr>"

definition server_empty :: server where
  "server_empty = \<lparr>rateLimiter = Map.empty, npcCache = [], backendCalls = []\<rparr>"

definition echo_backend :: "jsstring \<Rightarrow> jsstring option" where
  "echo_backend prompt = Some prompt"

text \<open>The state after the same dialog request was served at each of the given times.\<close>

definition served :: "int list \<Rightarrow> server" where
  "served ts =
     foldl (\<lambda>s t. snd (handle echo_backend t (dialog_request (lit ''hi'') (lit ''k'')) s))
       server_empty ts"

section \<open>Properties of the level validator\<close>

lemma filterE_Inr:
  "filterE f xs = Inr ys \<Longrightarrow> set ys \<subseteq> set xs \<and> (\<forall>y\<in>set ys. f y = Inr True) \<and> length ys \<le> length xs"
proof (induction xs arbitrary: ys)
  case Nil
  then show ?case by simp
next
  case (Cons x xs)
  then show ?case
    by (fastforce split: sum.splits if_splits)
qed

lemma filterE_all: "\<forall>x\<in>set xs. f x = Inr True \<Longrightarrow> filterE f xs = Inr xs"
  by (induction xs) auto

lemma filterE_total: "\<forall>x\<in>set xs. \<exists>b. f x = Inr b \<Longrightarrow> \<exists>ys. filterE f xs = Inr ys"
  by (induction xs) (auto split: sum.splits)

lemma filterEnemies_no_raise: "\<forall>e\<in>set es. \<not> nullish e \<Longrightarrow> fst (filterEnemies es) = None"
  by (induction es) (auto simp: Let_def split: prod.splits)

lemma set_insert_by: "set (insert_by gt x ys) = insert x (set ys)"
  by (induction ys) auto

lemma set_sort_by: "set (sort_by gt xs) = set xs"
  by (induction xs) (auto simp: sort_by_def set_insert_by)

lemma map_insert_by:
  "(\<And>a b. gt' (f a) (f b) = gt a b) \<Longrightarrow> map f (insert_by gt x ys) = insert_by gt' (f x) (map f ys)"
  by (induction ys) auto

lemma map_sort_by:
  "(\<And>a b. gt' (f a) (f b) = gt a b) \<Longrightarrow> map f (sort_by gt xs) = sort_by gt' (map f xs)"
  by (induction xs) (simp_all add: sort_by_def map_insert_by [where gt' = gt'])

lemma gapErrors_map:
  "\<forall>p\<in>set ps. numval (getprop (f p) (lit ''x'')) = numval (getprop p (lit ''x''))
      \<and> numval (getprop (f p) (lit ''y'')) = numval (getprop p (lit ''y''))
      \<and> numval (getprop (f p) (lit ''width'')) = numval (getprop p (lit ''width''))
   \<Longrightarrow> gapErrors i (map f ps) = gapErrors i ps"
  by (induction i ps rule: gapErrors.induct) (simp_all add: Let_def)

lemma platformValid_True:
  "platformValid p = Inr True \<longleftrightarrow>
     \<not> nullish p \<and> is_number (getprop p (lit ''x'')) \<and> is_number (getprop p (lit ''y''))
     \<and> is_number (getprop p (lit ''width''))
     \<and> \<not> num_lt (numval (getprop p (lit ''width''))) (Fin MIN_PLATFORM_WIDTH)
     \<and> \<not> num_lt (numval (getprop p (lit ''y''))) (Fin (- 5))
     \<and> \<not> num_lt (Fin 15) (numval (getprop p (lit ''y'')))"
  by (auto simp: platformValid_def)

lemma Math_max_id: "\<not> num_lt w (Fin m) \<Longrightarrow> Math_max w (Fin m) = w"
  by (cases w) (auto simp: Math_max_def)

lemma platformNorm_fields:
  "getprop (platformNorm p) (lit ''x'') = getprop p (lit ''x'')"
  "getprop (platformNorm p) (lit ''y'') = getprop p (lit ''y'')"
  "getprop (platformNorm p) (lit ''width'') = JNum (Math_max (numval (getprop p (lit ''width''))) (Fin MIN_PLATFORM_WIDTH))"
  by (simp_all add: platformNorm_def lit_def)

lemma platformNorm_valid:
  "platformValid p = Inr True \<Longrightarrow> platformValid (platformNorm p) = Inr True"
  unfolding platformValid_True
  by (simp add: platformNorm_fields Math_max_id) (simp add: platformNorm_def)

lemma byX_gt_norm: "byX_gt (platformNorm a) (platformNorm b) = byX_gt a b"
  by (simp add: byX_gt_def platformNorm_fields)

lemma validate_valid:
  assumes "validateLevelData conv raw = (Inr r, raw')" and "valid r"
  shows "\<exists>ps vps es kept arr cs okCoins.
           arrayOrEmpty (getprop raw (lit ''platforms'')) = Inr ps
         \<and> filterE platformValid ps = Inr vps
         \<and> arrayOrEmpty (getprop raw (lit ''enemies'')) = Inr es
         \<and> filterEnemies es = (None, kept, arr)
         \<and> arrayOrEmpty (getprop raw (lit ''coins'')) = Inr cs
         \<and> filterE coinValid cs = Inr okCoins
         \<and> earlyErrors raw vps = []
         \<and> gapErrors 1 (sort_by byX_gt vps) = []
         \<and> levelData conv raw vps (take MAX_COINS (map coinNorm okCoins)) (take MAX_ENEMIES kept)
             = Inr (data r)"
  using assms
  by (auto simp: validateLevelData_def Let_def split: if_splits sum.splits prod.splits option.splits)

lemma levelData_platforms:
  "levelData conv raw vps vcs ves = Inr d \<Longrightarrow> getprop d (lit ''platforms'') = JArr (map platformNorm vps)"
  by (auto simp: levelData_def lit_def split: sum.splits)

lemma levelData_enemies:
  "levelData conv raw vps vcs ves = Inr d \<Longrightarrow> getprop d (lit ''enemies'') = JArr (map enemyNorm ves)"
  by (auto simp: levelData_def lit_def split: sum.splits)

lemma levelData_coins:
  "levelData conv raw vps vcs ves = Inr d \<Longrightarrow> getprop d (lit ''coins'') = JArr vcs"
  by (auto simp: levelData_def lit_def split: sum.splits)

lemma levelData_spawn:
  "levelData conv raw vps vcs ves = Inr d \<Longrightarrow>
     getprop d (lit ''spawnPoint'') = pointNorm (getprop raw (lit ''spawnPoint'')) 2 2"
  by (auto simp: levelData_def lit_def split: sum.splits)

lemma levelData_goal:
  "levelData conv raw vps vcs ves = Inr d \<Longrightarrow>
     getprop d (lit ''goalPosition'') = pointNorm (getprop raw (lit ''goalPosition'')) 80 0"
  by (auto simp: levelData_def lit_def split: sum.splits)

lemma levelData_difficulty:
  "levelData conv raw vps vcs ves = Inr d \<Longrightarrow> is_number (getprop d (lit ''difficulty''))"
  by (auto simp: levelData_def lit_def split: sum.splits)

lemma levelData_returns:
  assumes "is_number (getprop raw (lit ''difficulty''))"
  shows "\<exists>d. levelData conv raw vps vcs ves = Inr d"
proof -
  from assms obtain n where "getprop raw (lit ''difficulty'') = JNum n"
    by (cases "getprop raw (lit ''difficulty'')") simp_all
  then have "\<exists>m. js_or (getprop raw (lit ''difficulty'')) (JNum (Fin 1)) = JNum m"
    by (simp add: js_or_def)
  then show ?thesis by (auto simp: levelData_def)
qed

lemma pointNorm_x: "getprop (pointNorm pt dx dy) (lit ''x'') = js_or (getprop pt (lit ''x'')) (JNum (Fin dx))"
  by (simp add: pointNorm_def lit_def)

lemma earlyErrors_Nil:
  "earlyErrors raw vps = [] \<longleftrightarrow>
     (\<exists>ps. getprop raw (lit ''platforms'') = JArr ps \<and> ps \<noteq> [] \<and> length ps \<le> MAX_PLATFORMS)
     \<and> vps \<noteq> []
     \<and> truthy (getprop raw (lit ''spawnPoint''))
     \<and> is_number (getprop (getprop raw (lit ''spawnPoint'')) (lit ''x''))
     \<and> truthy (getprop raw (lit ''goalPosition''))
     \<and> is_number (getprop (getprop raw (lit ''goalPosition'')) (lit ''x''))"
  by (cases "getprop raw (lit ''platforms'')") (auto simp: earlyErrors_def Let_def)

lemmas ex_defs = Let_def plat_def point_def lit_def arrayOrEmpty_def platformValid_def MIN_PLATFORM_WIDTH_def
   sort_by_def earlyErrors_def coinValid_def levelData_def platformNorm_def pointNorm_def js_or_def Math_max_def Math_min_def MAX_ENEMIES_def MAX_COINS_def
   MAX_PLATFORMS_def MAX_GAP_def byX_gt_def num_sub_def includes_lit_def dataPlatforms_def validateLevelData_def

text \<open>
  C8 (amended). In every result with \<open>valid: true\<close>, every platform of \<open>data.platforms\<close> has
  \<open>x\<close>, \<open>y\<close> and \<open>width\<close> of type number; \<open>y\<close> is NaN or lies in [-5, 15], \<open>width\<close> is NaN or at
  least the minimum platform width. The filter tests \<open>typeof\<close> and two comparisons that NaN
  passes, so \<open>x\<close> may be NaN or infinite and \<open>width\<close> may be NaN or \<open>+Infinity\<close>.
\<close>

theorem C8_valid_platforms_numeric:
  assumes "validateLevelData conv raw = (Inr r, raw')" and "valid r" and "p \<in> set (dataPlatforms r)"
  shows "\<exists>x y w. getprop p (lit ''x'') = JNum x \<and> getprop p (lit ''y'') = JNum y
            \<and> getprop p (lit ''width'') = JNum w
            \<and> (y = NaN \<or> (num_le (Fin (- 5)) y \<and> num_le y (Fin 15)))
            \<and> (w = NaN \<or> num_le (Fin MIN_PLATFORM_WIDTH) w)"
proof -
  from validate_valid [OF assms(1,2)] obtain ps vps vcs ves where
    f: "filterE platformValid ps = Inr vps" and d: "levelData conv raw vps vcs ves = Inr (data r)"
    by blast
  from assms(3) levelData_platforms [OF d] obtain q where q: "q \<in> set vps" and p: "p = platformNorm q"
    by (auto simp: dataPlatforms_def)
  from filterE_Inr [OF f] q have v: "platformValid q = Inr True" by blast
  then obtain x y w where
    x: "getprop q (lit ''x'') = JNum x" and y: "getprop q (lit ''y'') = JNum y"
    and w: "getprop q (lit ''width'') = JNum w"
    unfolding platformValid_True
    by (metis is_number.elims(2))
  from v x y w have b: "\<not> num_lt w (Fin MIN_PLATFORM_WIDTH)" "\<not> num_lt y (Fin (- 5))" "\<not> num_lt (Fin 15) y"
    unfolding platformValid_True by simp_all
  have "getprop p (lit ''x'') = JNum x" "getprop p (lit ''y'') = JNum y"
       "getprop p (lit ''width'') = JNum w"
    using x y w b by (simp_all add: p platformNorm_fields Math_max_id)
  moreover have "y = NaN \<or> (num_le (Fin (- 5)) y \<and> num_le y (Fin 15))"
    using b by (auto simp: num_le_def)
  moreover have "w = NaN \<or> num_le (Fin MIN_PLATFORM_WIDTH) w"
    using b by (auto simp: num_le_def)
  ultimately show ?thesis by blast
qed

theorem C8_valid_platforms_numeric_witness:
  "\<exists>r raw' p. validateLevelData (\<lambda>v. Inr NaN) level_ok = (Inr r, raw') \<and> valid r
      \<and> p \<in> set (dataPlatforms r)
      \<and> (\<exists>x y w. getprop p (lit ''x'') = JNum x \<and> getprop p (lit ''y'') = JNum y
            \<and> getprop p (lit ''width'') = JNum w
            \<and> (y = NaN \<or> (num_le (Fin (- 5)) y \<and> num_le y (Fin 15)))
            \<and> (w = NaN \<or> num_le (Fin MIN_PLATFORM_WIDTH) w))"
proof -
  have "\<exists>r raw'. validateLevelData (\<lambda>v. Inr NaN) level_ok = (Inr r, raw') \<and> valid r
          \<and> dataPlatforms r \<noteq> []"
    by (simp add: level_ok_def ex_defs)
  then obtain r raw' where e: "validateLevelData (\<lambda>v. Inr NaN) level_ok = (Inr r, raw')"
    and v: "valid r" and n: "dataPlatforms r \<noteq> []"
    by blast
  from n have m: "hd (dataPlatforms r) \<in> set (dataPlatforms r)" by simp
  from C8_valid_platforms_numeric [OF e v m] e v m show ?thesis by blast
qed

text \<open>
  C8 as stated fails: a document whose first platform has \<open>x = Infinity\<close> (what
  \<open>JSON.parse\<close> makes of \<open>1e999\<close>) and whose second has \<open>y\<close> and \<open>width\<close> NaN is valid, and
  the platforms are returned with these values.
\<close>

theorem C8_platform_not_finite:
  "(case validateLevelData (\<lambda>v. Inr NaN) level_infinite of
      (Inr r, raw') \<Rightarrow>
         valid r \<and> map (\<lambda>p. (getprop p (lit ''x''), getprop p (lit ''y''), getprop p (lit ''width'')))
                     (dataPlatforms r)
                 = [(JNum PInf, JNum (Fin 0), JNum (Fin 4)), (JNum (Fin 0), JNum NaN, JNum NaN)]
    | (Inl e, raw') \<Rightarrow> False)"
  by (simp add: level_infinite_def ex_defs)

lemma js_or_number: "is_number a \<Longrightarrow> is_number (js_or a (JNum d))"
  by (simp add: js_or_def)

lemma enemyNorm_not_nullish: "\<not> nullish (enemyNorm e)"
  by (simp add: enemyNorm_def)

lemma coinNorm_not_nullish: "\<not> nullish (coinNorm c)"
  by (cases c) (simp_all add: coinNorm_def)

lemma pointNorm_truthy: "truthy (pointNorm pt dx dy)"
  by (simp add: pointNorm_def)

lemma levelData_object:
  "levelData conv raw vps vcs ves = Inr d \<Longrightarrow> truthy d \<and> typeof_object d"
  by (auto simp: levelData_def split: sum.splits)

text \<open>
  C3. \<open>validateLevelData\<close> accepts its own valid output: when a call returns
  \<open>valid: true\<close>, the call on the returned \<open>data\<close> returns (it does not raise) and its
  result has \<open>valid: true\<close>.
\<close>

theorem C3_validate_idempotent:
  assumes "validateLevelData conv x = (Inr r, x')" and "valid r"
  shows "\<exists>r2 d'. validateLevelData conv (data r) = (Inr r2, d') \<and> valid r2"
proof -
  from validate_valid [OF assms] obtain ps vps vcs0 ves where
    a: "arrayOrEmpty (getprop x (lit ''platforms'')) = Inr ps"
    and f: "filterE platformValid ps = Inr vps"
    and ee: "earlyErrors x vps = []"
    and ge: "gapErrors 1 (sort_by byX_gt vps) = []"
    and d: "levelData conv x vps (take MAX_COINS (map coinNorm vcs0)) ves = Inr (data r)"
    by blast
  let ?vcs = "take MAX_COINS (map coinNorm vcs0)"
  let ?d = "data r"
  let ?nps = "map platformNorm vps"
  from filterE_Inr [OF f] have allv: "\<forall>p\<in>set vps. platformValid p = Inr True" by blast
  from ee obtain ps0 where ps0: "getprop x (lit ''platforms'') = JArr ps0" "ps0 \<noteq> []" "length ps0 \<le> MAX_PLATFORMS"
    and vne: "vps \<noteq> []"
    and sp: "is_number (getprop (getprop x (lit ''spawnPoint'')) (lit ''x''))"
    and gp: "is_number (getprop (getprop x (lit ''goalPosition'')) (lit ''x''))"
    unfolding earlyErrors_Nil by blast
  from a ps0 have "ps = ps0" by (simp add: arrayOrEmpty_def)
  with filterE_Inr [OF f] ps0 have len: "length vps \<le> MAX_PLATFORMS" by simp
  have p1: "arrayOrEmpty (getprop ?d (lit ''platforms'')) = Inr ?nps"
    by (simp add: levelData_platforms [OF d] arrayOrEmpty_def)
  have p2: "filterE platformValid ?nps = Inr ?nps"
    using allv by (intro filterE_all) (simp add: platformNorm_valid)
  have e1: "arrayOrEmpty (getprop ?d (lit ''enemies'')) = Inr (map enemyNorm ves)"
    by (simp add: levelData_enemies [OF d] arrayOrEmpty_def)
  have "fst (filterEnemies (map enemyNorm ves)) = None"
    by (intro filterEnemies_no_raise) (simp add: enemyNorm_not_nullish)
  then obtain kept arr where e2: "filterEnemies (map enemyNorm ves) = (None, kept, arr)"
    by (cases "filterEnemies (map enemyNorm ves)") simp
  have c1: "arrayOrEmpty (getprop ?d (lit ''coins'')) = Inr ?vcs"
    by (simp add: levelData_coins [OF d] arrayOrEmpty_def)
  have "\<forall>c\<in>set ?vcs. \<exists>b. coinValid c = Inr b"
    by (auto simp: coinValid_def coinNorm_not_nullish dest!: in_set_takeD)
  from filterE_total [OF this] obtain ok where c2: "filterE coinValid ?vcs = Inr ok" ..
  have ee2: "earlyErrors ?d ?nps = []"
    unfolding earlyErrors_Nil
    using vne len sp gp
    by (simp add: levelData_platforms [OF d] levelData_spawn [OF d] levelData_goal [OF d]
          pointNorm_truthy pointNorm_x js_or_number)
  have "sort_by byX_gt ?nps = map platformNorm (sort_by byX_gt vps)"
    by (rule map_sort_by [symmetric]) (rule byX_gt_norm)
  moreover have "gapErrors 1 (map platformNorm (sort_by byX_gt vps)) = gapErrors 1 (sort_by byX_gt vps)"
    using allv unfolding platformValid_True
    by (intro gapErrors_map) (simp add: set_sort_by platformNorm_fields Math_max_id)
  ultimately have ge2: "gapErrors 1 (sort_by byX_gt ?nps) = []"
    using ge by simp
  from levelData_returns [OF levelData_difficulty [OF d]] obtain d2 where
    d2: "levelData conv ?d ?nps (take MAX_COINS (map coinNorm ok)) (take MAX_ENEMIES kept) = Inr d2"
    by blast
  have "\<exists>d'. validateLevelData conv ?d = (Inr \<lparr>valid = True, errors = [], data = d2\<rparr>, d')"
    by (simp add: validateLevelData_def levelData_object [OF d] p1 p2 e1 e2 c1 c2 ee2 d2
          ge2 [unfolded One_nat_def] Let_def)
  then show ?thesis by auto
qed

theorem C3_validate_idempotent_witness:
  "\<exists>r x'. validateLevelData (\<lambda>v. Inr NaN) level_ok = (Inr r, x') \<and> valid r
      \<and> (\<exists>r2 d'. validateLevelData (\<lambda>v. Inr NaN) (data r) = (Inr r2, d') \<and> valid r2)"
proof -
  have "\<exists>r x'. validateLevelData (\<lambda>v. Inr NaN) level_ok = (Inr r, x') \<and> valid r"
    by (simp add: level_ok_def ex_defs)
  then obtain r x' where e: "validateLevelData (\<lambda>v. Inr NaN) level_ok = (Inr r, x')" and v: "valid r"
    by blast
  from C3_validate_idempotent [OF e v] e v show ?thesis by blast
qed

text \<open>
  C1 fails on the code: on a document whose \<open>platforms\<close> array holds \<open>null\<close>, the filter
  callback reads \<open>p.x\<close> of \<open>null\<close> and the call raises a TypeError instead of returning a
  result.
\<close>

theorem C1_validate_raises_on_null_platform:
  "validateLevelData conv level_null_platform = (Inl TypeError, level_null_platform)"
  by (simp add: level_null_platform_def ex_defs)

theorem C1_validate_raises_on_null_platform_witness:
  "fst (validateLevelData (\<lambda>v. Inr NaN) (JObj [(lit ''platforms'', JArr [JNull])])) = Inl TypeError"
  using C1_validate_raises_on_null_platform [of "\<lambda>v. Inr NaN"]
  by (simp add: level_null_platform_def)

text \<open>
  C9 fails on the code: a valid document with \<open>spawnPoint.x = 0\<close> and \<open>goalPosition.x = 0\<close>
  comes back with \<open>spawnPoint.x = 2\<close> and \<open>goalPosition.x = 80\<close>, since \<open>0 || 2\<close> is \<open>2\<close>.
\<close>

theorem C9_spawn_zero_replaced:
  "(case validateLevelData (\<lambda>v. Inr NaN) level_spawn_zero of
      (Inr r, raw') \<Rightarrow>
         valid r
         \<and> getprop (getprop level_spawn_zero (lit ''spawnPoint'')) (lit ''x'') = JNum (Fin 0)
         \<and> getprop (getprop (data r) (lit ''spawnPoint'')) (lit ''x'') = JNum (Fin 2)
         \<and> getprop (getprop level_spawn_zero (lit ''goalPosition'')) (lit ''x'') = JNum (Fin 0)
         \<and> getprop (getprop (data r) (lit ''goalPosition'')) (lit ''x'') = JNum (Fin 80)
    | (Inl e, raw') \<Rightarrow> False)"
  by (simp add: level_spawn_zero_def ex_defs)

theorem C9_spawn_zero_replaced_witness:
  "\<exists>r raw'. validateLevelData (\<lambda>v. Inr NaN) level_spawn_zero = (Inr r, raw')
      \<and> getprop (getprop (data r) (lit ''spawnPoint'')) (lit ''x'')
          \<noteq> getprop (getprop level_spawn_zero (lit ''spawnPoint'')) (lit ''x'')"
  using C9_spawn_zero_replaced
  by (auto split: prod.splits sum.splits)

lemma filterEnemies_arr:
  "filterEnemies es = (None, kept, arr) \<Longrightarrow> arr = map coerceEnemy es"
  by (induction es arbitrary: kept arr)
     (auto simp: coerceEnemy_def needsCoercion_def Let_def split: if_splits prod.splits)

lemma getprop_set_prop: "getprop (set_prop (JObj kvs) k v) k = v"
  by (simp add: update_conv')

lemma number_prop_object: "is_number (getprop e k) \<Longrightarrow> \<exists>kvs. e = JObj kvs"
  by (cases e) simp_all

lemma array_prop_object: "getprop e k = JArr xs \<Longrightarrow> \<exists>kvs. e = JObj kvs"
  by (cases e) simp_all

lemma coerceEnemy_behavior:
  "needsCoercion e \<Longrightarrow> getprop (coerceEnemy e) (lit ''behavior'') = JStr (lit ''patrol'')"
  using number_prop_object [of e "lit ''x''"]
  by (auto simp: coerceEnemy_def needsCoercion_def update_conv')

lemma validate_enemies_after:
  assumes "validateLevelData conv raw = (Inr r, raw')" and "getprop raw (lit ''enemies'') = JArr es"
  shows "getprop raw' (lit ''enemies'') = JArr (map coerceEnemy es)"
proof -
  from array_prop_object [OF assms(2)] obtain kvs where raw: "raw = JObj kvs" by blast
  obtain ex kept arr where fe: "filterEnemies es = (ex, kept, arr)" by (cases "filterEnemies es") auto
  show ?thesis
  proof (cases ex)
    case None
    with fe have "arr = map coerceEnemy es" by (simp add: filterEnemies_arr)
    then show ?thesis
      using assms fe None unfolding raw
      by (auto simp: validateLevelData_def Let_def arrayOrEmpty_def getprop_set_prop simp del: getprop.simps set_prop.simps
          split: if_splits sum.splits)
  next
    case (Some a)
    then show ?thesis
      using assms fe unfolding raw
      by (auto simp: validateLevelData_def Let_def arrayOrEmpty_def simp del: getprop.simps set_prop.simps
          split: if_splits sum.splits)
  qed
qed

text \<open>
  C10 (amended). Whenever the call returns a result, valid or not, the \<open>enemies\<close> array of the
  argument holds afterwards, at the place of every entry with numeric \<open>x\<close> and \<open>y\<close>, a
  whitelisted type and a behavior outside \<open>patrol\<close> and \<open>chase\<close>, that entry with its
  behavior overwritten to \<open>patrol\<close>; the other entries are as before.
\<close>

theorem C10_validate_mutates_enemies:
  assumes "validateLevelData conv raw = (Inr r, raw')" and "getprop raw (lit ''enemies'') = JArr es"
  shows "\<exists>es'. getprop raw' (lit ''enemies'') = JArr es' \<and> length es' = length es
           \<and> (\<forall>i<length es.
                 if needsCoercion (es ! i)
                 then getprop (es' ! i) (lit ''behavior'') = JStr (lit ''patrol'')
                      \<and> es' ! i = set_prop (es ! i) (lit ''behavior'') (JStr (lit ''patrol''))
                 else es' ! i = es ! i)"
  using validate_enemies_after [OF assms] coerceEnemy_behavior
  by (auto simp: coerceEnemy_def)

theorem C10_validate_mutates_enemies_witness:
  "\<exists>r raw' es'. validateLevelData (\<lambda>v. Inr NaN) level_no_platforms = (Inr r, raw') \<and> \<not> valid r
      \<and> getprop level_no_platforms (lit ''enemies'') = JArr [enemy_fly]
      \<and> needsCoercion enemy_fly
      \<and> getprop enemy_fly (lit ''behavior'') = JStr (lit ''fly'')
      \<and> getprop raw' (lit ''enemies'') = JArr es'
      \<and> getprop (es' ! 0) (lit ''behavior'') = JStr (lit ''patrol'')"
proof -
  have "\<exists>r raw'. validateLevelData (\<lambda>v. Inr NaN) level_no_platforms = (Inr r, raw') \<and> \<not> valid r"
    by (simp add: level_no_platforms_def enemy_fly_def ex_defs)
  then obtain r raw' where e: "validateLevelData (\<lambda>v. Inr NaN) level_no_platforms = (Inr r, raw')"
    and v: "\<not> valid r"
    by blast
  have g: "getprop level_no_platforms (lit ''enemies'') = JArr [enemy_fly]"
    by (simp add: level_no_platforms_def lit_def)
  have n: "needsCoercion enemy_fly"
    by (simp add: needsCoercion_def enemy_fly_def lit_def includes_lit_def)
  have b: "getprop enemy_fly (lit ''behavior'') = JStr (lit ''fly'')"
    by (simp add: enemy_fly_def lit_def)
  from C10_validate_mutates_enemies [OF e g] n obtain es' where
    "getprop raw' (lit ''enemies'') = JArr es'"
    "getprop (es' ! 0) (lit ''behavior'') = JStr (lit ''patrol'')"
    by auto
  with e v g n b show ?thesis by blast
qed

text \<open>
  C10 as stated fails: on a document whose \<open>platforms\<close> array holds \<open>null\<close> and whose
  \<open>enemies\<close> array holds an entry with numeric \<open>x\<close> and \<open>y\<close>, type \<open>goomba\<close> and behavior
  \<open>fly\<close>, the call raises in the platform filter, before the enemies are looked at, and
  the entry of the argument keeps its behavior.
\<close>

theorem C10_raise_leaves_behavior:
  "fst (validateLevelData (\<lambda>v. Inr NaN) level_null_platform_fly) = Inl TypeError
   \<and> getprop level_null_platform_fly (lit ''enemies'') = JArr [enemy_fly]
   \<and> needsCoercion enemy_fly
   \<and> getprop (snd (validateLevelData (\<lambda>v. Inr NaN) level_null_platform_fly)) (lit ''enemies'')
       = JArr [enemy_fly]
   \<and> getprop enemy_fly (lit ''behavior'') = JStr (lit ''fly'')"
  by (simp add: level_null_platform_fly_def enemy_fly_def needsCoercion_def ex_defs)
section \<open>Properties of the difficulty engine\<close>

lemma deathsDelta_mono:
  "num_le (Fin 0) d1 \<Longrightarrow> num_le d1 d2 \<Longrightarrow> deathsDelta d2 \<le> deathsDelta d1"
  by (cases d1; cases d2) (auto simp: num_le_def deathsDelta_def)

lemma num_div_mono:
  "0 < d \<Longrightarrow> num_le a b \<Longrightarrow> num_le (num_div a (Fin d)) (num_div b (Fin d))"
  by (cases a; cases b) (auto simp: num_le_def divide_less_cancel)

lemma paceDelta_mono:
  "num_le t1 t2 \<Longrightarrow> paceDelta t2 (Fin c) \<le> paceDelta t1 (Fin c)"
proof -
  assume le: "num_le t1 t2"
  obtain d where d: "Math_max (Fin 1) (num_mul (Fin c) (Fin 3)) = Fin d" "0 < d"
    by (cases "1 < c * 3") (auto simp: Math_max_def)
  from num_div_mono [OF d(2) le] show ?thesis
    unfolding paceDelta_def Let_def d(1)
    by (cases "num_div t1 (Fin d)"; cases "num_div t2 (Fin d)") (auto simp: num_le_def)
qed

lemma coinDelta_mono:
  "0 < p \<Longrightarrow> num_le c1 c2 \<Longrightarrow> coinDelta c1 (Fin p) \<le> coinDelta c2 (Fin p)"
proof -
  assume p: "0 < p" and le: "num_le c1 c2"
  from num_div_mono [OF p le] show ?thesis
    using p unfolding coinDelta_def Let_def
    by (cases "num_div c1 (Fin p)"; cases "num_div c2 (Fin p)") (auto simp: num_le_def)
qed

lemma clampD_range: "n \<noteq> NaN \<Longrightarrow> \<exists>r. clampD n = Fin r \<and> 1 \<le> r \<and> r \<le> 10"
  by (cases n) (auto simp: clampD_def Math_min_def Math_max_def MAX_DIFFICULTY_def MIN_DIFFICULTY_def)

lemma num_add_Fin_NaN: "num_add c (Fin x) = NaN \<longleftrightarrow> c = NaN"
  by (cases c) auto

lemma clampD_mono:
  "c \<noteq> NaN \<Longrightarrow> a \<le> b \<Longrightarrow> num_le (clampD (num_add c (Fin (of_int a)))) (clampD (num_add c (Fin (of_int b))))"
  by (cases c) (auto simp: clampD_def Math_min_def Math_max_def MAX_DIFFICULTY_def MIN_DIFFICULTY_def num_le_def)

lemma clampD_inf:
  "c = PInf \<or> c = NInf \<Longrightarrow> clampD (num_add c (Fin a)) = clampD (num_add c (Fin b))"
  by (auto simp: clampD_def)

lemma calc_clampD:
  "calculateNextDifficulty s =
     clampD (num_add (dflt 1 (currentDifficulty s))
       (Fin (of_int (deathsDelta (dflt 0 (deaths s))
                     + paceDelta (dflt 60 (completionTime s)) (dflt 1 (currentDifficulty s))
                     + coinDelta (dflt 0 (coinsCollected s)) (dflt 1 (totalCoins s))))))"
  by (simp add: calculateNextDifficulty_def clampD_def Let_def)

lemma num_le_refl: "n \<noteq> NaN \<Longrightarrow> num_le n n"
  by (cases n) (auto simp: num_le_def)

lemma clampD_delta_mono:
  assumes "cd \<noteq> NaN" and "\<And>c. cd = Fin c \<Longrightarrow> a \<le> b"
  shows "num_le (clampD (num_add cd (Fin (of_int a)))) (clampD (num_add cd (Fin (of_int b))))"
proof (cases cd)
  case (Fin c)
  with assms(2) have "a \<le> b" by blast
  from clampD_mono [OF assms(1) this] show ?thesis .
next
  case NaN
  with assms show ?thesis by simp
next
  case NInf
  then have "clampD (num_add cd (Fin (of_int a))) = clampD (num_add cd (Fin (of_int b)))"
    by (intro clampD_inf) simp
  moreover have "clampD (num_add cd (Fin (of_int b))) \<noteq> NaN"
    using clampD_range [of "num_add cd (Fin (of_int b))"] NInf by auto
  ultimately show ?thesis by (simp add: num_le_refl)
next
  case PInf
  then have "clampD (num_add cd (Fin (of_int a))) = clampD (num_add cd (Fin (of_int b)))"
    by (intro clampD_inf) simp
  moreover have "clampD (num_add cd (Fin (of_int b))) \<noteq> NaN"
    using clampD_range [of "num_add cd (Fin (of_int b))"] PInf by auto
  ultimately show ?thesis by (simp add: num_le_refl)
qed

lemma dflt_not_NaN: "v \<noteq> Some NaN \<Longrightarrow> dflt d v \<noteq> NaN"
  by (cases v) (auto simp: dflt_def)

lemma dflt_Some: "dflt d (Some n) = n"
  by (simp add: dflt_def)

lemma stats_upd:
  "deaths (s\<lparr>deaths := v\<rparr>) = v" "completionTime (s\<lparr>deaths := v\<rparr>) = completionTime s"
  "coinsCollected (s\<lparr>deaths := v\<rparr>) = coinsCollected s" "totalCoins (s\<lparr>deaths := v\<rparr>) = totalCoins s"
  "currentDifficulty (s\<lparr>deaths := v\<rparr>) = currentDifficulty s"
  "deaths (s\<lparr>completionTime := v\<rparr>) = deaths s" "completionTime (s\<lparr>completionTime := v\<rparr>) = v"
  "coinsCollected (s\<lparr>completionTime := v\<rparr>) = coinsCollected s"
  "totalCoins (s\<lparr>completionTime := v\<rparr>) = totalCoins s"
  "currentDifficulty (s\<lparr>completionTime := v\<rparr>) = currentDifficulty s"
  "deaths (s\<lparr>coinsCollected := v\<rparr>) = deaths s"
  "completionTime (s\<lparr>coinsCollected := v\<rparr>) = completionTime s"
  "coinsCollected (s\<lparr>coinsCollected := v\<rparr>) = v"
  "totalCoins (s\<lparr>coinsCollected := v\<rparr>) = totalCoins s"
  "currentDifficulty (s\<lparr>coinsCollected := v\<rparr>) = currentDifficulty s"
  by simp_all

text \<open>
  C4 (amended). When \<open>currentDifficulty\<close> is not NaN, \<open>calculateNextDifficulty\<close> returns a
  number in [1, 10], whatever the other fields hold. Holding the other fields fixed, the
  result is non-increasing in \<open>deaths\<close> over \<open>deaths >= 0\<close>, non-increasing in
  \<open>completionTime\<close>, and non-decreasing in \<open>coinsCollected\<close> when \<open>totalCoins\<close> is finite and
  positive.
\<close>

theorem C4_next_difficulty:
  assumes "currentDifficulty s \<noteq> Some NaN"
  shows "(\<exists>r. calculateNextDifficulty s = Fin r \<and> 1 \<le> r \<and> r \<le> 10)
    \<and> (\<forall>d1 d2. num_le (Fin 0) d1 \<and> num_le d1 d2 \<longrightarrow>
           num_le (calculateNextDifficulty (s\<lparr>deaths := Some d2\<rparr>))
                  (calculateNextDifficulty (s\<lparr>deaths := Some d1\<rparr>)))
    \<and> (\<forall>t1 t2. num_le t1 t2 \<longrightarrow>
           num_le (calculateNextDifficulty (s\<lparr>completionTime := Some t2\<rparr>))
                  (calculateNextDifficulty (s\<lparr>completionTime := Some t1\<rparr>)))
    \<and> (\<forall>p c1 c2. dflt 1 (totalCoins s) = Fin p \<and> 0 < p \<and> num_le c1 c2 \<longrightarrow>
           num_le (calculateNextDifficulty (s\<lparr>coinsCollected := Some c1\<rparr>))
                  (calculateNextDifficulty (s\<lparr>coinsCollected := Some c2\<rparr>)))"
proof -
  let ?cd = "dflt 1 (currentDifficulty s)"
  from assms have cd: "?cd \<noteq> NaN" by (rule dflt_not_NaN)
  have range: "\<exists>r. calculateNextDifficulty s = Fin r \<and> 1 \<le> r \<and> r \<le> 10"
    unfolding calc_clampD using cd by (intro clampD_range) (simp add: num_add_Fin_NaN)
  have dm: "num_le (calculateNextDifficulty (s\<lparr>deaths := Some d2\<rparr>))
                   (calculateNextDifficulty (s\<lparr>deaths := Some d1\<rparr>))"
    if "num_le (Fin 0) d1" "num_le d1 d2" for d1 d2
    unfolding calc_clampD using deathsDelta_mono [OF that]
    by (simp only: dflt_Some stats_upd) (intro clampD_delta_mono cd, simp)
  have tm: "num_le (calculateNextDifficulty (s\<lparr>completionTime := Some t2\<rparr>))
                   (calculateNextDifficulty (s\<lparr>completionTime := Some t1\<rparr>))"
    if "num_le t1 t2" for t1 t2 
    unfolding calc_clampD using paceDelta_mono [OF that]
    by (simp only: dflt_Some stats_upd) (intro clampD_delta_mono cd, simp)
  have cm: "num_le (calculateNextDifficulty (s\<lparr>coinsCollected := Some c1\<rparr>))
                   (calculateNextDifficulty (s\<lparr>coinsCollected := Some c2\<rparr>))"
    if "dflt 1 (totalCoins s) = Fin p" "0 < p" "num_le c1 c2" for p c1 c2
    unfolding calc_clampD using coinDelta_mono [OF that(2,3)] that(1)
    by (simp only: dflt_Some stats_upd) (intro clampD_delta_mono cd, simp)
  from range dm tm cm show ?thesis by blast
qed

theorem C4_next_difficulty_witness:
  "currentDifficulty stats_mid \<noteq> Some NaN
   \<and> calculateNextDifficulty stats_mid = Fin 5
   \<and> calculateNextDifficulty (stats_mid\<lparr>deaths := Some (Fin 0)\<rparr>) = Fin 6
   \<and> calculateNextDifficulty (stats_mid\<lparr>deaths := Some (Fin 5)\<rparr>) = Fin 3
   \<and> num_le (calculateNextDifficulty (stats_mid\<lparr>deaths := Some (Fin 5)\<rparr>))
             (calculateNextDifficulty (stats_mid\<lparr>deaths := Some (Fin 0)\<rparr>))
   \<and> num_le (calculateNextDifficulty (stats_mid\<lparr>completionTime := Some (Fin 200)\<rparr>))
             (calculateNextDifficulty (stats_mid\<lparr>completionTime := Some (Fin 30)\<rparr>))
   \<and> num_le (calculateNextDifficulty (stats_mid\<lparr>coinsCollected := Some (Fin 1)\<rparr>))
             (calculateNextDifficulty (stats_mid\<lparr>coinsCollected := Some (Fin 10)\<rparr>))"
proof -
  have h: "currentDifficulty stats_mid \<noteq> Some NaN" by (simp add: stats_mid_def)
  have e: "calculateNextDifficulty stats_mid = Fin 5"
          "calculateNextDifficulty (stats_mid\<lparr>deaths := Some (Fin 0)\<rparr>) = Fin 6"
          "calculateNextDifficulty (stats_mid\<lparr>deaths := Some (Fin 5)\<rparr>) = Fin 3"
    by (simp_all add: stats_mid_def calculateNextDifficulty_def dflt_def deathsDelta_def
          paceDelta_def coinDelta_def Math_max_def Math_min_def num_le_def
          MAX_DIFFICULTY_def MIN_DIFFICULTY_def)
  have d: "num_le (Fin 0) (Fin 0) \<and> num_le (Fin 0) (Fin 5)"
    and t: "num_le (Fin 30) (Fin 200)"
    and c: "dflt 1 (totalCoins stats_mid) = Fin 10 \<and> (0::real) < 10 \<and> num_le (Fin 1) (Fin 10)"
    by (simp_all add: num_le_def stats_mid_def dflt_def)
  from C4_next_difficulty [OF h] d t c
  have "num_le (calculateNextDifficulty (stats_mid\<lparr>deaths := Some (Fin 5)\<rparr>))
             (calculateNextDifficulty (stats_mid\<lparr>deaths := Some (Fin 0)\<rparr>))"
       "num_le (calculateNextDifficulty (stats_mid\<lparr>completionTime := Some (Fin 200)\<rparr>))
             (calculateNextDifficulty (stats_mid\<lparr>completionTime := Some (Fin 30)\<rparr>))"
       "num_le (calculateNextDifficulty (stats_mid\<lparr>coinsCollected := Some (Fin 1)\<rparr>))
             (calculateNextDifficulty (stats_mid\<lparr>coinsCollected := Some (Fin 10)\<rparr>))"
    by blast+
  with h e show ?thesis by simp
qed

text \<open>
  C4 as stated fails: with \<open>currentDifficulty\<close> NaN the result is NaN, outside [1, 10];
  raising \<open>deaths\<close> from -1 to 0 raises the result from 5 to 6; and with
  \<open>totalCoins = Infinity\<close>, raising \<open>coinsCollected\<close> from \<open>-Infinity\<close> to 5 lowers the
  result from 5 to 4.
\<close>

theorem C4_not_in_range_nor_monotone:
  "calculateNextDifficulty (stats_mid\<lparr>currentDifficulty := Some NaN\<rparr>) = NaN
   \<and> calculateNextDifficulty (stats_mid\<lparr>deaths := Some (Fin (- 1))\<rparr>) = Fin 5
   \<and> calculateNextDifficulty (stats_mid\<lparr>deaths := Some (Fin 0)\<rparr>) = Fin 6
   \<and> calculateNextDifficulty
        (stats_mid\<lparr>totalCoins := Some PInf, coinsCollected := Some NInf\<rparr>) = Fin 5
   \<and> calculateNextDifficulty
        (stats_mid\<lparr>totalCoins := Some PInf, coinsCollected := Some (Fin 5)\<rparr>) = Fin 4"
  by (simp add: stats_mid_def calculateNextDifficulty_def dflt_def deathsDelta_def
        paceDelta_def coinDelta_def Math_max_def Math_min_def num_le_def
        MAX_DIFFICULTY_def MIN_DIFFICULTY_def)

section \<open>Properties of the regular expressions and of the sanitizer\<close>

lemma concat_map_concat:
  "concat (map f (concat xss)) = concat (map (\<lambda>xs. concat (map f xs)) xss)"
  by (induction xss) auto

lemma rx_match_assoc: "rx_match (Seq (Seq r1 r2) r3) st = rx_match (Seq r1 (Seq r2 r3)) st"
proof -
  have "rx_match (Seq r2 r3) = (\<lambda>x. concat (map (rx_match r3) (rx_match r2 x)))"
    by (rule ext) simp
  then show ?thesis by (simp add: concat_map_concat comp_def)
qed

lemma rx_match_Eps_Seq: "rx_match (Seq Eps r) st = rx_match r st"
  by simp

lemma concat_map_single: "concat (map (\<lambda>x. [x]) xs) = xs"
  by (induction xs) auto

lemma rx_match_Seq_Eps: "rx_match (Seq r Eps) st = rx_match r st"
proof -
  have "rx_match Eps = (\<lambda>x. [x])" by (rule ext) simp
  then show ?thesis by (simp add: concat_map_single)
qed

lemma rx_match_Chr_Seq:
  "rx_match (Seq (Chr P) r) (b, s, g) =
     (case s of [] \<Rightarrow> [] | c # cs \<Rightarrow> if P c then rx_match r (c # b, cs, g) else [])"
  by (simp split: list.splits)

lemma rx_match_lits_Seq:
  "rx_match (Seq (lits l) r) (b, s, g) =
     (if take (length l) s = l then rx_match r (rev l @ b, drop (length l) s, g) else [])"
proof (induction l arbitrary: b s)
  case Nil
  then show ?case by simp
next
  case (Cons c l)
  have "rx_match (Seq (lits (c # l)) r) (b, s, g)
        = rx_match (Seq (Chr (\<lambda>d. d = c)) (Seq (lits l) r)) (b, s, g)"
    by (simp only: lits.simps rx_match_assoc)
  also have "\<dots> = (if take (length (c # l)) s = c # l
                    then rx_match r (rev (c # l) @ b, drop (length (c # l)) s, g) else [])"
    unfolding rx_match_Chr_Seq Cons.IH by (cases s) auto
  finally show ?case .
qed

lemma rx_match_litsi_Seq:
  "rx_match (Seq (litsi l) r) (b, s, g) =
     (if length l \<le> length s \<and> map upper (take (length l) s) = map upper l
      then rx_match r (rev (take (length l) s) @ b, drop (length l) s, g) else [])"
proof (induction l arbitrary: b s)
  case Nil
  then show ?case by simp
next
  case (Cons c l)
  have "rx_match (Seq (litsi (c # l)) r) (b, s, g)
        = rx_match (Seq (Chr (\<lambda>d. upper d = upper c)) (Seq (litsi l) r)) (b, s, g)"
    by (simp only: litsi.simps rx_match_assoc)
  also have "\<dots> = (if length (c # l) \<le> length s \<and> map upper (take (length (c # l)) s) = map upper (c # l)
                    then rx_match r (rev (take (length (c # l)) s) @ b, drop (length (c # l)) s, g) else [])"
  proof (cases s)
    case Nil
    then show ?thesis by (simp only: rx_match_Chr_Seq list.case) simp
  next
    case (Cons d ds)
    show ?thesis unfolding Cons rx_match_Chr_Seq list.case Cons.IH by simp
  qed
  finally show ?case .
qed

lemma rx_match_Star_Seq:
  "rx_match (Seq (Star P) r) (b, [], g) = rx_match r (b, [], g)"
  "rx_match (Seq (Star P) r) (b, c # cs, g) =
     (if P c then rx_match (Seq (Star P) r) (c # b, cs, g) else []) @ rx_match r (b, c # cs, g)"
  by simp_all

lemma rx_match_StarLazy_Seq:
  "rx_match (Seq (StarLazy P) r) (b, [], g) = rx_match r (b, [], g)"
  "rx_match (Seq (StarLazy P) r) (b, c # cs, g) =
     rx_match r (b, c # cs, g) @ (if P c then rx_match (Seq (StarLazy P) r) (c # b, cs, g) else [])"
  by simp_all

lemma not_gt_eq: "not_gt = (\<lambda>a. a \<noteq> 62)"
  by (rule ext) (simp add: not_gt_def)

lemma tag_tail:
  "rx_match (Seq (Star not_gt) (Seq (lits [62]) Eps)) (b, s, g)
   = (if 62 \<in> set s then [(62 # rev (takeWhile not_gt s) @ b, tl (dropWhile not_gt s), g)] else [])"
proof (induction s arbitrary: b)
  case Nil
  show ?case by (simp only: rx_match_Star_Seq rx_match_lits_Seq) simp
next
  case (Cons c s)
  show ?case
    by (simp only: rx_match_Star_Seq rx_match_lits_Seq Cons.IH) (auto simp: not_gt_eq)
qed

lemma rx_match_pat_tag:
  "rx_match pat_tag (b, s, g) =
     (case s of
        c # d # ds \<Rightarrow>
          if c = 60 \<and> d \<noteq> 62 \<and> 62 \<in> set ds
          then [(62 # rev (takeWhile not_gt ds) @ d # c # b, tl (dropWhile not_gt ds), g)] else []
      | _ \<Rightarrow> [])"
proof -
  have "rx_match pat_tag (b, s, g)
        = rx_match (Seq (lits [60]) (Seq (Chr not_gt) (Seq (Star not_gt) (Seq (lits [62]) Eps)))) (b, s, g)"
    by (simp only: pat_tag_def seqs.simps) (simp only: lit_def, simp)
  also have "\<dots> = (case s of
        c # d # ds \<Rightarrow>
          if c = 60 \<and> d \<noteq> 62 \<and> 62 \<in> set ds
          then [(62 # rev (takeWhile not_gt ds) @ d # c # b, tl (dropWhile not_gt ds), g)] else []
      | _ \<Rightarrow> [])"
    by (simp only: rx_match_lits_Seq rx_match_Chr_Seq tag_tail)
       (auto simp: not_gt_eq split: list.splits)
  finally show ?thesis .
qed

lemma star_greedy_suffix: "(b', s') \<in> set (star_greedy P b s) \<Longrightarrow> \<exists>u. s = u @ s'"
proof (induction s arbitrary: b)
  case Nil
  then show ?case by simp
next
  case (Cons c s)
  then show ?case by (fastforce split: if_splits intro: Cons_eq_appendI)
qed

lemma star_lazy_suffix: "(b', s') \<in> set (star_lazy P b s) \<Longrightarrow> \<exists>u. s = u @ s'"
proof (induction s arbitrary: b)
  case Nil
  then show ?case by simp
next
  case (Cons c s)
  then show ?case by (fastforce split: if_splits intro: Cons_eq_appendI)
qed

lemma rx_match_suffix:
  "(b', s', g') \<in> set (rx_match r (b, s, g)) \<Longrightarrow> \<exists>u. s = u @ s'"
proof (induction r arbitrary: b s g b' s' g')
  case (Chr P)
  then show ?case by (auto split: list.splits if_splits)
next
  case Eps
  then show ?case by simp
next
  case (Seq r1 r2)
  from Seq.prems obtain b1 s1 g1 where
    m1: "(b1, s1, g1) \<in> set (rx_match r1 (b, s, g))" and
    m2: "(b', s', g') \<in> set (rx_match r2 (b1, s1, g1))"
    by auto
  from Seq.IH(1) [OF m1] Seq.IH(2) [OF m2] show ?case by auto
next
  case (Opt r)
  then show ?case by auto
next
  case (Star P)
  then show ?case by (auto dest: star_greedy_suffix)
next
  case (StarLazy P)
  then show ?case by (auto dest: star_lazy_suffix)
next
  case WordB
  then show ?case by (auto split: if_splits)
next
  case (Grp r)
  then show ?case by auto
qed

lemma replace_all_delete_subset: "set (replace_all r [] b s) \<subseteq> set s"
proof (induction s arbitrary: b rule: length_induct)
  case (1 s)
  show ?case
  proof (cases s)
    case Nil
    then show ?thesis by (simp split: list.splits)
  next
    case (Cons c cs)
    show ?thesis
    proof (cases "rx_match r (b, c # cs, None)")
      case Nil
      with Cons 1 show ?thesis by auto
    next
      case m: (Cons st sts)
      obtain b' s' g' where st: "st = (b', s', g')" by (cases st)
      have "(b', s', g') \<in> set (rx_match r (b, c # cs, None))" using m st by simp
      from rx_match_suffix [OF this] obtain u where u: "c # cs = u @ s'" ..
      then have sub: "set s' \<subseteq> set s" using Cons by (metis set_append sup_ge2)
      show ?thesis
      proof (cases "length s' < Suc (length cs)")
        case True
        with 1 Cons have "set (replace_all r [] b' s') \<subseteq> set s'" by simp
        with sub m st True Cons show ?thesis by auto
      next
        case False
        with m st Cons 1 show ?thesis by auto
      qed
    qed
  qed
qed

lemma tag_free_suffix: "tag_free (u @ v) \<Longrightarrow> tag_free v"
  by (induction u) auto

lemma tag_free_prefix: "tag_free (u @ v) \<Longrightarrow> tag_free u"
proof (induction u)
  case Nil
  then show ?case by simp
next
  case (Cons c u)
  then have t: "tag_free u" by simp
  show ?case
  proof (cases u)
    case Nil
    then show ?thesis by simp
  next
    case u: (Cons d ds)
    from Cons.prems have "c = 60 \<longrightarrow> d = 62 \<or> 62 \<notin> set (ds @ v)"
      unfolding u by simp
    then have "c = 60 \<longrightarrow> d = 62 \<or> 62 \<notin> set ds" by auto
    with t show ?thesis unfolding u by simp
  qed
qed

lemma tag_free_replace_tag: "tag_free (replace_all pat_tag [] b s)"
proof (induction s arbitrary: b rule: length_induct)
  case (1 s)
  show ?case
  proof (cases s)
    case Nil
    then show ?thesis by (simp add: rx_match_pat_tag)
  next
    case (Cons c cs)
    show ?thesis
    proof (cases "rx_match pat_tag (b, c # cs, None)")
      case Nil
      let ?R = "replace_all pat_tag [] (c # b) cs"
      from Nil Cons have r: "replace_all pat_tag [] b s = c # ?R" by simp
      from 1 Cons have tf: "tag_free ?R" by simp
      have "case ?R of [] \<Rightarrow> True | d # ds \<Rightarrow> d = 62 \<or> 62 \<notin> set ds" if c: "c = 60"
      proof (cases cs)
        case Nil
        then show ?thesis by (simp add: rx_match_pat_tag)
      next
        case cs: (Cons d ds)
        show ?thesis
        proof (cases "d = 62")
          case True
          then show ?thesis unfolding cs by (simp add: rx_match_pat_tag split: list.splits)
        next
          case False
          with Nil c cs have "62 \<notin> set ds" by (simp add: rx_match_pat_tag split: if_splits)
          with False cs have "62 \<notin> set cs" by simp
          with replace_all_delete_subset [of pat_tag "c # b" cs] have "62 \<notin> set ?R" by blast
          then show ?thesis by (cases ?R) auto
        qed
      qed
      with tf r show ?thesis by simp
    next
      case m: (Cons st sts)
      obtain b' s' g' where st: "st = (b', s', g')" by (cases st)
      from m st have "s' = tl (dropWhile not_gt (tl cs))"
        by (auto simp: rx_match_pat_tag split: list.splits if_splits)
      moreover have "length (dropWhile not_gt (tl cs)) \<le> length (tl cs)"
        by (rule length_dropWhile_le)
      ultimately have short: "length s' < Suc (length cs)" by simp
      with 1 Cons have "tag_free (replace_all pat_tag [] b' s')" by simp
      with m st short Cons show ?thesis by simp
    qed
  qed
qed

lemma star_greedy_hd:
  "\<exists>rest. star_greedy P b s = (rev (takeWhile P s) @ b, dropWhile P s) # rest"
proof (induction s arbitrary: b)
  case Nil
  then show ?case by simp
next
  case (Cons c s)
  show ?case
  proof (cases "P c")
    case True
    from Cons [of "c # b"] obtain rest where
      "star_greedy P (c # b) s = (rev (takeWhile P s) @ c # b, dropWhile P s) # rest" ..
    with True show ?thesis by simp
  next
    case False
    then show ?thesis by simp
  qed
qed

declare replace_all.simps [simp del]

lemma rx_match_ws_plus:
  "rx_match ws_plus (b, s, g) =
     (case s of [] \<Rightarrow> []
      | c # cs \<Rightarrow> if js_ws c then map (\<lambda>(b', s'). (b', s', g)) (star_greedy js_ws (c # b) cs) else [])"
  by (simp add: ws_plus_def split: list.splits)

lemma replace_ws_Nil: "replace_all ws_plus repl b [] = []"
  by (simp add: replace_all.simps rx_match_ws_plus)

lemma replace_ws_Cons:
  "replace_all ws_plus repl b (c # cs) =
     (if js_ws c
      then repl @ replace_all ws_plus repl (rev (takeWhile js_ws cs) @ c # b) (dropWhile js_ws cs)
      else c # replace_all ws_plus repl (c # b) cs)"
proof (cases "js_ws c")
  case True
  obtain rest where "star_greedy js_ws (c # b) cs
      = (rev (takeWhile js_ws cs) @ c # b, dropWhile js_ws cs) # rest"
    using star_greedy_hd by blast
  moreover have "length (dropWhile js_ws cs) < Suc (length cs)"
    by (simp add: length_dropWhile_le le_imp_less_Suc)
  ultimately show ?thesis using True by (simp add: replace_all.simps rx_match_ws_plus)
next
  case False
  then show ?thesis by (simp add: replace_all.simps rx_match_ws_plus)
qed

lemma collapse_set: "set (replace_all ws_plus [32] b s) \<subseteq> insert 32 (set s)"
proof (induction s arbitrary: b rule: length_induct)
  case (1 s)
  show ?case
  proof (cases s)
    case Nil
    then show ?thesis by (simp add: replace_ws_Nil)
  next
    case (Cons c cs)
    show ?thesis
    proof (cases "js_ws c")
      case True
      have "length (dropWhile js_ws cs) < length s"
        using Cons by (simp add: length_dropWhile_le le_imp_less_Suc)
      with 1 have "set (replace_all ws_plus [32] (rev (takeWhile js_ws cs) @ c # b) (dropWhile js_ws cs))
                   \<subseteq> insert 32 (set (dropWhile js_ws cs))"
        by blast
      moreover have "set (dropWhile js_ws cs) \<subseteq> set cs" by (auto dest: set_dropWhileD)
      ultimately show ?thesis unfolding Cons replace_ws_Cons using True by auto
    next
      case False
      from 1 Cons have "set (replace_all ws_plus [32] (c # b) cs) \<subseteq> insert 32 (set cs)" by simp
      then show ?thesis unfolding Cons replace_ws_Cons using False by auto
    qed
  qed
qed

lemma collapse_tag_free: "tag_free s \<Longrightarrow> tag_free (replace_all ws_plus [32] b s)"
proof (induction s arbitrary: b rule: length_induct)
  case (1 s)
  show ?case
  proof (cases s)
    case Nil
    then show ?thesis by (simp add: replace_ws_Nil)
  next
    case (Cons c cs)
    from "1.prems" Cons have tcs: "tag_free cs" by simp
    show ?thesis
    proof (cases "js_ws c")
      case True
      have len: "length (dropWhile js_ws cs) < length s"
        using Cons by (simp add: length_dropWhile_le le_imp_less_Suc)
      have "tag_free (takeWhile js_ws cs @ dropWhile js_ws cs)" using tcs by simp
      then have "tag_free (dropWhile js_ws cs)" by (rule tag_free_suffix)
      with 1 len have "tag_free (replace_all ws_plus [32] (rev (takeWhile js_ws cs) @ c # b) (dropWhile js_ws cs))"
        by blast
      then show ?thesis unfolding Cons replace_ws_Cons using True by simp
    next
      case False
      let ?R = "replace_all ws_plus [32] (c # b) cs"
      from 1 Cons tcs have tR: "tag_free ?R" by simp
      have "case ?R of [] \<Rightarrow> True | d # ds \<Rightarrow> d = 62 \<or> 62 \<notin> set ds" if c: "c = 60"
      proof (cases cs)
        case Nil
        then show ?thesis by (simp add: replace_ws_Nil)
      next
        case cs: (Cons d ds)
        show ?thesis
        proof (cases "d = 62")
          case True
          then have "\<not> js_ws d" by (simp add: js_ws_def)
          then show ?thesis unfolding cs replace_ws_Cons using True by simp
        next
          case d: False
          from "1.prems" Cons c cs d have "62 \<notin> set ds" by auto
          with d cs have "62 \<notin> set cs" by auto
          with collapse_set [of "c # b" cs] have "62 \<notin> set ?R" by auto
          then show ?thesis by (cases ?R) auto
        qed
      qed
      with tR show ?thesis unfolding Cons replace_ws_Cons using False by simp
    qed
  qed
qed

lemma tag_free_dropWhile: "tag_free s \<Longrightarrow> tag_free (dropWhile P s)"
  using tag_free_suffix [of "takeWhile P s" "dropWhile P s"] by simp

lemma tag_free_take: "tag_free s \<Longrightarrow> tag_free (take n s)"
  using tag_free_prefix [of "take n s" "drop n s"] by simp

lemma tag_free_rev_dropWhile_rev: "tag_free s \<Longrightarrow> tag_free (rev (dropWhile P (rev s)))"
proof -
  have "rev (dropWhile P (rev s)) @ rev (takeWhile P (rev s))
        = rev (takeWhile P (rev s) @ dropWhile P (rev s))"
    by (simp only: rev_append)
  then have "rev (dropWhile P (rev s)) @ rev (takeWhile P (rev s)) = s" by simp
  then show "tag_free s \<Longrightarrow> tag_free (rev (dropWhile P (rev s)))"
    using tag_free_prefix [of "rev (dropWhile P (rev s))" "rev (takeWhile P (rev s))"] by simp
qed

lemma tag_free_trim: "tag_free s \<Longrightarrow> tag_free (js_trim s)"
  unfolding js_trim_def by (intro tag_free_rev_dropWhile_rev tag_free_dropWhile)

lemma tag_free_substring0: "tag_free s \<Longrightarrow> tag_free (substring0 s m)"
  unfolding substring0_def by (rule tag_free_take)

lemma litsi_SeqD:
  "rx_match (Seq (litsi l) r) (b, s, g) \<noteq> [] \<Longrightarrow>
     length l \<le> length s \<and> map upper (take (length l) s) = map upper l
     \<and> rx_match r (rev (take (length l) s) @ b, drop (length l) s, g) \<noteq> []"
  by (simp add: rx_match_litsi_Seq del: rx_match.simps split: if_splits)

lemma lazy_close:
  "rx_match (Seq (StarLazy P) (Seq (litsi B) Eps)) (b, s, g) \<noteq> [] \<Longrightarrow>
     \<exists>u v. s = u @ v \<and> length B \<le> length v \<and> map upper (take (length B) v) = map upper B"
proof (induction s arbitrary: b)
  case Nil
  then have "rx_match (Seq (litsi B) Eps) (b, [], g) \<noteq> []"
    by (simp add: rx_match_StarLazy_Seq del: rx_match.simps)
  from litsi_SeqD [OF this]
  have "length B \<le> length ([]::jsstring) \<and> map upper (take (length B) []) = map upper B"
    by blast
  then show ?case by blast
next
  case (Cons c s)
  from Cons.prems have
    "rx_match (Seq (litsi B) Eps) (b, c # s, g) \<noteq> []
     \<or> rx_match (Seq (StarLazy P) (Seq (litsi B) Eps)) (c # b, s, g) \<noteq> []"
    by (simp add: rx_match_StarLazy_Seq del: rx_match.simps split: if_splits)
  then show ?case
  proof
    assume "rx_match (Seq (litsi B) Eps) (b, c # s, g) \<noteq> []"
    from litsi_SeqD [OF this]
    have "length B \<le> length (c # s) \<and> map upper (take (length B) (c # s)) = map upper B"
      by blast
    then show ?thesis by (intro exI [of _ "[]"] exI [of _ "c # s"]) simp
  next
    assume "rx_match (Seq (StarLazy P) (Seq (litsi B) Eps)) (c # b, s, g) \<noteq> []"
    from Cons.IH [OF this] obtain u v where
      "s = u @ v" "length B \<le> length v" "map upper (take (length B) v) = map upper B"
      by blast
    then show ?thesis by (intro exI [of _ "c # u"] exI [of _ v]) simp
  qed
qed

lemma upper_60: "upper c = 60 \<Longrightarrow> c = 60"
  by (simp add: upper_def split: if_splits)

lemma upper_62: "upper c = 62 \<Longrightarrow> c = 62"
  by (simp add: upper_def split: if_splits)

lemma script_match:
  assumes "rx_match pat_script (b, s, g) \<noteq> []"
  shows "\<exists>c rest. s = 60 # c # rest \<and> c \<noteq> 62 \<and> 62 \<in> set rest"
proof -
  let ?A = "lit ''<script''" and ?B = "lit ''</script>''"
  have "rx_match pat_script (b, s, g)
        = rx_match (Seq (litsi ?A) (Seq (StarLazy any_unit) (Seq (litsi ?B) Eps))) (b, s, g)"
    by (simp only: pat_script_def seqs.simps)
  with assms have "rx_match (Seq (litsi ?A) (Seq (StarLazy any_unit) (Seq (litsi ?B) Eps))) (b, s, g) \<noteq> []"
    by simp
  from litsi_SeqD [OF this]
  have len: "length ?A \<le> length s" and pre: "map upper (take (length ?A) s) = map upper ?A"
    and rest: "rx_match (Seq (StarLazy any_unit) (Seq (litsi ?B) Eps))
                 (rev (take (length ?A) s) @ b, drop (length ?A) s, g) \<noteq> []"
    by blast+
  from lazy_close [OF rest] obtain u v where
    uv: "drop (length ?A) s = u @ v" and lv: "length ?B \<le> length v"
    and mv: "map upper (take (length ?B) v) = map upper ?B"
    by blast
  from lv have l8: "8 < length v" by (simp add: lit_def)
  from mv have "map upper (take (length ?B) v) ! 8 = map upper ?B ! 8" by simp
  with l8 have "upper (v ! 8) = 62" by (simp add: lit_def upper_def)
  then have "v ! 8 = 62" by (rule upper_62)
  with l8 have "62 \<in> set v" by (metis nth_mem)
  with uv have in_drop: "62 \<in> set (drop (length ?A) s)" by simp
  from len obtain c0 c1 r where s: "s = c0 # c1 # r"
    by (cases s; cases "tl s") (auto simp: lit_def)
  from pre have "upper c0 = 60" "upper c1 = 83"
    unfolding s by (simp_all add: lit_def upper_def)
  then have "c0 = 60" "c1 \<noteq> 62" by (auto simp: upper_def split: if_splits)
  moreover from in_drop have "62 \<in> set r"
    unfolding s by (auto simp: lit_def dest: in_set_dropD)
  ultimately show ?thesis using s by blast
qed

lemma rx_search_Some:
  "rx_search r b t \<noteq> None \<Longrightarrow> \<exists>u s' b'. t = u @ s' \<and> rx_match r (b', s', None) \<noteq> []"
proof (induction t arbitrary: b)
  case Nil
  then have "rx_match r (b, [], None) \<noteq> []" by (auto split: list.splits)
  then show ?case by (intro exI [of _ "[]"] exI [of _ b]) simp
next
  case (Cons c t)
  show ?case
  proof (cases "rx_match r (b, c # t, None)")
    case Nil
    with Cons.prems have "rx_search r (c # b) t \<noteq> None" by simp
    from Cons.IH [OF this] obtain u s' b' where "t = u @ s'" "rx_match r (b', s', None) \<noteq> []"
      by blast
    then show ?thesis by (intro exI [of _ "c # u"] exI [of _ s'] exI [of _ b']) simp
  next
    case (Cons st sts)
    then show ?thesis by (intro exI [of _ "[]"] exI [of _ "c # t"] exI [of _ b]) simp
  qed
qed

lemma tag_free_no_script: "tag_free t \<Longrightarrow> \<not> has_script_block t"
proof
  assume t: "tag_free t" and "has_script_block t"
  then have "rx_search pat_script [] t \<noteq> None" by (simp add: has_script_block_def)
  from rx_search_Some [OF this] obtain u s' b' where
    u: "t = u @ s'" and m: "rx_match pat_script (b', s', None) \<noteq> []"
    by blast
  from script_match [OF m] obtain c rest where s': "s' = 60 # c # rest" "c \<noteq> 62" "62 \<in> set rest"
    by blast
  from t u have "tag_free s'" using tag_free_suffix by blast
  with s' show False by simp
qed

lemma sanitize_string:
  "sanitizeInput (JStr s) m =
     (let cleaned1 = replace_all pat_tag [] []
                       (fold (\<lambda>pattern cleaned. replace_all pattern [] [] cleaned)
                          [pat_ignore, pat_you_are_now, pat_system, pat_pretend, pat_fence, pat_script] s);
          cleaned2 = js_trim (replace_all ws_plus [32] [] cleaned1)
      in if num_lt (dflt 200 m) (Fin (real (length cleaned2)))
         then substring0 cleaned2 (dflt 200 m) else cleaned2)"
  by (simp add: sanitizeInput_def INJECTION_PATTERNS_def lit_def)

lemma sanitize_tag_free: "tag_free (sanitizeInput input m)"
proof (cases input)
  case (JStr s)
  show ?thesis
    unfolding JStr sanitize_string Let_def
    by (simp add: tag_free_substring0 tag_free_trim collapse_tag_free tag_free_replace_tag)
qed (simp_all add: sanitizeInput_def)

lemma sanitize_not_string: "\<not> is_string input \<Longrightarrow> sanitizeInput input m = []"
  by (cases input) (simp_all add: sanitizeInput_def)

lemma substring0_length:
  "0 \<le> r \<Longrightarrow> real (length (substring0 s (Fin r))) \<le> r"
proof -
  assume r: "0 \<le> r"
  have "length (substring0 s (Fin r)) \<le> nat \<lfloor>r\<rfloor>"
    by (simp add: substring0_def)
  then have "real (length (substring0 s (Fin r))) \<le> real (nat \<lfloor>r\<rfloor>)" by simp
  also have "\<dots> \<le> r" using r by simp
  finally show ?thesis .
qed

lemma sanitize_length:
  assumes "num_le (Fin 0) (dflt 200 m)"
  shows "num_le (Fin (real (length (sanitizeInput input m)))) (dflt 200 m)"
proof (cases input)
  case (JStr s)
  let ?M = "dflt 200 m"
  obtain c where c: "sanitizeInput (JStr s) m
      = (if num_lt ?M (Fin (real (length c))) then substring0 c ?M else c)"
    unfolding sanitize_string Let_def by blast
  show ?thesis
  proof (cases ?M)
    case (Fin r)
    with assms have "0 \<le> r" by (simp add: num_le_def)
    from substring0_length [OF this, of c] show ?thesis
      unfolding JStr c Fin by (auto simp: num_le_def)
  next
    case PInf
    then show ?thesis unfolding JStr c by (simp add: num_le_def)
  next
    case NaN
    with assms show ?thesis by (simp add: num_le_def)
  next
    case NInf
    with assms show ?thesis by (simp add: num_le_def)
  qed
qed (use assms in \<open>simp_all add: sanitizeInput_def\<close>)

lemma length_backticks: "length backticks = 3"
  by (simp add: backticks_def)

lemma has_backticks_step: "has_backticks (c # cs) \<longleftrightarrow> take 3 (c # cs) = backticks \<or> has_backticks cs"
  by (cases "c # cs" rule: has_backticks.cases) (auto simp: backticks_def)

lemma has_backticks_drop: "has_backticks (drop n s) \<Longrightarrow> has_backticks s"
proof (induction s arbitrary: n)
  case Nil
  then show ?case by simp
next
  case (Cons c s)
  show ?case
  proof (cases n)
    case 0
    with Cons.prems show ?thesis by simp
  next
    case (Suc m)
    with Cons.prems have "has_backticks (drop m s)" by simp
    then have "has_backticks s" by (rule Cons.IH)
    then show ?thesis by (simp only: has_backticks_step) simp
  qed
qed

lemma rx_match_any_Star_Seq:
  "rx_match (Seq (Star any_unit) r) (b, c # cs, g) =
     rx_match (Seq (Star any_unit) r) (c # b, cs, g) @ rx_match r (b, c # cs, g)"
  by (simp add: any_unit_def)

lemma rx_match_bt_Eps:
  "rx_match (Seq (lits backticks) Eps) (b, s, g) =
     (if take 3 s = backticks then [(rev backticks @ b, drop 3 s, g)] else [])"
  unfolding rx_match_lits_Seq length_backticks by simp

lemma star_bt:
  "rx_match (Seq (Star any_unit) (Seq (lits backticks) Eps)) (b, s, g) \<noteq> [] \<longleftrightarrow> has_backticks s"
proof (induction s arbitrary: b)
  case Nil
  show ?case
    unfolding rx_match_Star_Seq rx_match_bt_Eps by (simp add: backticks_def)
next
  case (Cons c s)
  show ?case
    unfolding rx_match_any_Star_Seq rx_match_bt_Eps has_backticks_step [of c s]
    using Cons.IH [of "c # b"] by auto
qed

lemma star_bt_hd:
  "rx_match (Seq (Star any_unit) (Seq (lits backticks) Eps)) (b, s, g) = (b', s', g') # sts \<Longrightarrow>
     \<not> has_backticks s' \<and> length s' + 3 \<le> length s"
proof (induction s arbitrary: b sts)
  case Nil
  then show ?case
    unfolding rx_match_Star_Seq rx_match_bt_Eps by (simp add: backticks_def)
next
  case (Cons c s)
  let ?rec = "rx_match (Seq (Star any_unit) (Seq (lits backticks) Eps)) (c # b, s, g)"
  show ?case
  proof (cases ?rec)
    case Nil
    then have nb: "\<not> has_backticks s" using star_bt [of "c # b" s g] by simp
    from Cons.prems have "?rec @ rx_match (Seq (lits backticks) Eps) (b, c # s, g) = (b', s', g') # sts"
      unfolding rx_match_any_Star_Seq .
    with Nil have "rx_match (Seq (lits backticks) Eps) (b, c # s, g) = (b', s', g') # sts"
      by (simp only: append_Nil)
    then have e: "take 3 (c # s) = backticks \<and> s' = drop 3 (c # s)"
      unfolding rx_match_bt_Eps by (simp split: if_splits)
    then have "length (c # s) \<ge> 3"
      by (metis length_backticks length_take min.cobounded1)
    moreover from e have "s' = drop 2 s" by simp
    moreover from nb have "\<not> has_backticks (drop 2 s)" using has_backticks_drop by blast
    ultimately show ?thesis using e by simp
  next
    case (Cons st rest)
    from Cons.prems have "?rec @ rx_match (Seq (lits backticks) Eps) (b, c # s, g) = (b', s', g') # sts"
      unfolding rx_match_any_Star_Seq .
    with Cons have "st = (b', s', g')" by (simp only: append_Cons list.inject)
    with Cons have "?rec = (b', s', g') # rest" by simp
    from Cons.IH [OF this] show ?thesis by simp
  qed
qed

lemma rx_match_pat_fence:
  "rx_match pat_fence (b, s, g) =
     (if take 3 s = backticks
      then rx_match (Seq (Star any_unit) (Seq (lits backticks) Eps)) (rev backticks @ b, drop 3 s, g)
      else [])"
  by (simp add: pat_fence_def rx_match_lits_Seq length_backticks del: rx_match.simps)

lemma fence_match: "rx_match pat_fence (b, s, g) \<noteq> [] \<longleftrightarrow> fence_at s"
  by (simp add: rx_match_pat_fence fence_at_def star_bt del: rx_match.simps)

lemma fence_match_hd:
  "rx_match pat_fence (b, s, g) = (b', s', g') # sts \<Longrightarrow>
     \<not> has_backticks s' \<and> length s' < length s"
proof -
  assume m: "rx_match pat_fence (b, s, g) = (b', s', g') # sts"
  then have "rx_match (Seq (Star any_unit) (Seq (lits backticks) Eps)) (rev backticks @ b, drop 3 s, g)
             = (b', s', g') # sts"
    by (simp add: rx_match_pat_fence del: rx_match.simps split: if_splits)
  from star_bt_hd [OF this] show ?thesis by auto
qed

lemma fenced_block_search: "rx_search pat_fence b t \<noteq> None \<longleftrightarrow> fence_somewhere t"
proof (induction t arbitrary: b)
  case Nil
  have "\<not> fence_at []" by (simp add: fence_at_def backticks_def)
  then have "rx_match pat_fence (b, [], None) = []" using fence_match by blast
  then show ?case by simp
next
  case (Cons c t)
  show ?case
  proof (cases "rx_match pat_fence (b, c # t, None)")
    case Nil
    then have "\<not> fence_at (c # t)" using fence_match [of b "c # t" None] by simp
    with Nil Cons.IH [of "c # b"] show ?thesis by simp
  next
    case (Cons st sts)
    then have "fence_at (c # t)" using fence_match [of b "c # t" None] by simp
    with Cons show ?thesis by simp
  qed
qed

lemma has_fenced_block_iff: "has_fenced_block t \<longleftrightarrow> fence_somewhere t"
  using fenced_block_search [of "[]" t] by (auto simp: has_fenced_block_def)

lemma take3_Cons: "take 3 (c # x) = backticks \<longleftrightarrow> c = 96 \<and> take 2 x = [96, 96]"
  by (auto simp: backticks_def numeral_3_eq_3 numeral_2_eq_2)

lemma take2_Cons: "take 2 (c # x) = [96, 96 :: nat] \<longleftrightarrow> c = 96 \<and> take 1 x = [96]"
  by (auto simp: numeral_2_eq_2)

lemma take1_Cons: "take 1 (c # x) = [96 :: nat] \<longleftrightarrow> c = 96"
  by simp

lemma take3_take: "take 3 x = backticks \<Longrightarrow> take 1 x = [96] \<and> take 2 x = [96, 96]"
proof -
  assume a: "take 3 x = backticks"
  have "take 1 x = take 1 (take 3 x)" "take 2 x = take 2 (take 3 x)" by simp_all
  then show ?thesis unfolding a by (simp add: backticks_def)
qed

lemma drop3_Cons: "drop 3 (c # x) = drop 2 x"
  by (simp add: numeral_3_eq_3 numeral_2_eq_2)

lemma has_backticks_drop32: "has_backticks (drop 3 x) \<Longrightarrow> has_backticks (drop 2 x)"
proof -
  assume "has_backticks (drop 3 x)"
  moreover have "drop 3 x = drop 1 (drop 2 x)" by (simp add: numeral_3_eq_3)
  ultimately show ?thesis using has_backticks_drop by metis
qed

lemma fence_somewhere_backticks: "fence_somewhere x \<Longrightarrow> has_backticks x"
proof (induction x)
  case Nil
  then show ?case by simp
next
  case (Cons c x)
  then show ?case
    unfolding fence_somewhere.simps fence_at_def has_backticks_step [of c x] by blast
qed

lemma fence_replace_inv:
  "\<not> fence_somewhere (replace_all pat_fence [] b t)
   \<and> (has_backticks (replace_all pat_fence [] b t) \<longrightarrow> replace_all pat_fence [] b t = t)
   \<and> (take 1 (replace_all pat_fence [] b t) = [96] \<longrightarrow> take 1 t = [96])
   \<and> (take 2 (replace_all pat_fence [] b t) = [96, 96] \<longrightarrow> take 2 t = [96, 96])
   \<and> (replace_all pat_fence [] b t \<noteq> t \<longrightarrow> has_backticks (drop 3 t))"
proof (induction t arbitrary: b rule: length_induct)
  case (1 t)
  show ?case
  proof (cases t)
    case Nil
    then show ?thesis by (simp add: replace_all.simps split: list.splits)
  next
    case (Cons c cs)
    show ?thesis
    proof (cases "rx_match pat_fence (b, c # cs, None)")
      case Nil
      let ?R = "replace_all pat_fence [] (c # b) cs"
      from Nil have r: "replace_all pat_fence [] b (c # cs) = c # ?R"
        by (simp add: replace_all.simps)
      from Nil have nf: "\<not> fence_at (c # cs)" using fence_match [of b "c # cs" None] by simp
      from 1 Cons have ih:
        "\<not> fence_somewhere ?R" "has_backticks ?R \<longrightarrow> ?R = cs"
        "take 1 ?R = [96] \<longrightarrow> take 1 cs = [96]" "take 2 ?R = [96, 96] \<longrightarrow> take 2 cs = [96, 96]"
        "?R \<noteq> cs \<longrightarrow> has_backticks (drop 3 cs)"
        by simp_all
      have k2: "has_backticks (c # ?R) \<longrightarrow> ?R = cs"
      proof
        assume h: "has_backticks (c # ?R)"
        show "?R = cs"
        proof (rule ccontr)
          assume ne: "?R \<noteq> cs"
          with ih(2) have "\<not> has_backticks ?R" by blast
          with h have "take 3 (c # ?R) = backticks" unfolding has_backticks_step [of c ?R] by blast
          then have "c = 96" "take 2 ?R = [96, 96]" unfolding take3_Cons by blast+
          with ih(4) have "take 3 (c # cs) = backticks" unfolding take3_Cons by blast
          moreover from ne ih(5) have "has_backticks (drop 3 (c # cs))"
            unfolding drop3_Cons using has_backticks_drop32 by blast
          ultimately show False using nf unfolding fence_at_def by blast
        qed
      qed
      have k1: "\<not> fence_somewhere (c # ?R)"
      proof
        assume "fence_somewhere (c # ?R)"
        with ih(1) have fa: "fence_at (c # ?R)" by simp
        then have "has_backticks (c # ?R)"
          unfolding fence_at_def has_backticks_step [of c ?R] by blast
        with k2 have "?R = cs" by blast
        with fa nf show False by simp
      qed
      have k3: "take 1 (c # ?R) = [96] \<longrightarrow> take 1 (c # cs) = [96]"
        unfolding take1_Cons by blast
      have k4: "take 2 (c # ?R) = [96, 96] \<longrightarrow> take 2 (c # cs) = [96, 96]"
        unfolding take2_Cons using ih(3) by blast
      have k5: "c # ?R \<noteq> c # cs \<longrightarrow> has_backticks (drop 3 (c # cs))"
        unfolding drop3_Cons using ih(5) has_backticks_drop32 by blast
      from k1 k2 k3 k4 k5 show ?thesis unfolding Cons r by blast
    next
      case m: (Cons st sts)
      obtain b' s' g' where st: "st = (b', s', g')" by (cases st)
      from m st have mm: "rx_match pat_fence (b, c # cs, None) = (b', s', g') # sts" by simp
      from fence_match_hd [OF mm] have nb: "\<not> has_backticks s'" and len: "length s' < length (c # cs)"
        by blast+
      let ?R = "replace_all pat_fence [] b' s'"
      from mm len have r: "replace_all pat_fence [] b (c # cs) = ?R"
        by (simp add: replace_all.simps)
      from 1 len Cons have "?R \<noteq> s' \<longrightarrow> has_backticks (drop 3 s')" by simp
      with nb have rs: "?R = s'" using has_backticks_drop by blast
      from mm have fa: "fence_at (c # cs)" using fence_match [of b "c # cs" None] by simp
      then have t3: "take 3 (c # cs) = backticks" and hb: "has_backticks (drop 3 (c # cs))"
        unfolding fence_at_def by blast+
      from take3_take [OF t3] have "take 1 (c # cs) = [96]" "take 2 (c # cs) = [96, 96]"
        by blast+
      moreover from nb have "\<not> fence_somewhere s'" using fence_somewhere_backticks by blast
      ultimately show ?thesis unfolding Cons r rs using nb hb by blast
    qed
  qed
qed

lemma fence_replace_free: "\<not> fence_somewhere (replace_all pat_fence [] b t)"
  using fence_replace_inv by blast

lemma replace_all_id:
  assumes "\<forall>b u. rx_match r (b, drop u s, None) = []"
  shows "replace_all r repl b s = s"
  using assms
proof (induction s arbitrary: b)
  case Nil
  from Nil [rule_format, of b 0] show ?case by (simp add: replace_all.simps)
next
  case (Cons c s)
  have "\<forall>b u. rx_match r (b, drop u s, None) = []"
  proof (intro allI)
    fix b u
    from Cons.prems [rule_format, of b "Suc u"] show "rx_match r (b, drop u s, None) = []" by simp
  qed
  then have "replace_all r repl (c # b) s = s" by (rule Cons.IH)
  moreover from Cons.prems [rule_format, of b 0] have "rx_match r (b, c # s, None) = []" by simp
  ultimately show ?case by (simp add: replace_all.simps)
qed

lemma no_lt_tag: "60 \<notin> set s \<Longrightarrow> rx_match pat_tag (b, s, g) = []"
  unfolding rx_match_pat_tag by (auto split: list.splits)

lemma no_lt_script:
  assumes "60 \<notin> set s"
  shows "rx_match pat_script (b, s, g) = []"
proof (rule ccontr)
  assume "rx_match pat_script (b, s, g) \<noteq> []"
  from script_match [OF this] obtain c rest where "s = 60 # c # rest" by blast
  with assms show False by simp
qed

lemma no_lt_replace_tag: "60 \<notin> set s \<Longrightarrow> replace_all pat_tag [] b s = s"
  by (rule replace_all_id) (auto dest: in_set_dropD intro: no_lt_tag)

lemma no_lt_replace_script: "60 \<notin> set s \<Longrightarrow> replace_all pat_script [] b s = s"
  by (rule replace_all_id) (auto dest: in_set_dropD intro: no_lt_script)

lemma take3_append:
  assumes "take 3 x = backticks"
  shows "take 3 (x @ v) = backticks" "drop 3 (x @ v) = drop 3 x @ v"
proof -
  from assms have "length (take 3 x) = 3" by (simp only: length_backticks)
  then have "3 \<le> length x" by simp
  then show "take 3 (x @ v) = backticks" "drop 3 (x @ v) = drop 3 x @ v"
    using assms by simp_all
qed

lemma has_backticks_append: "has_backticks x \<Longrightarrow> has_backticks (x @ v)"
proof (induction x)
  case Nil
  then show ?case by simp
next
  case (Cons c x)
  from Cons.prems have "take 3 (c # x) = backticks \<or> has_backticks x"
    unfolding has_backticks_step [of c x] .
  then show ?case
  proof
    assume "take 3 (c # x) = backticks"
    from take3_append(1) [OF this, of v] show ?thesis
      unfolding append_Cons has_backticks_step [of c "x @ v"] by simp
  next
    assume "has_backticks x"
    then have "has_backticks (x @ v)" by (rule Cons.IH)
    then show ?thesis unfolding append_Cons has_backticks_step [of c "x @ v"] by blast
  qed
qed

lemma fence_at_append: "fence_at x \<Longrightarrow> fence_at (x @ v)"
  unfolding fence_at_def using take3_append [of x v] has_backticks_append by auto

lemma fence_somewhere_append: "fence_somewhere x \<Longrightarrow> fence_somewhere (x @ v)"
proof (induction x)
  case Nil
  then show ?case by simp
next
  case (Cons c x)
  from Cons.prems have "fence_at (c # x) \<or> fence_somewhere x" by simp
  then show ?case
  proof
    assume "fence_at (c # x)"
    from fence_at_append [OF this, of v] show ?thesis by simp
  next
    assume "fence_somewhere x"
    then have "fence_somewhere (x @ v)" by (rule Cons.IH)
    then show ?thesis by simp
  qed
qed

lemma fence_somewhere_drop: "fence_somewhere (drop n x) \<Longrightarrow> fence_somewhere x"
proof (induction x arbitrary: n)
  case Nil
  then show ?case by simp
next
  case (Cons c x)
  show ?case
  proof (cases n)
    case 0
    with Cons.prems show ?thesis by simp
  next
    case (Suc m)
    with Cons.prems have "fence_somewhere (drop m x)" by simp
    then have "fence_somewhere x" by (rule Cons.IH)
    then show ?thesis by simp
  qed
qed

lemma fence_somewhere_take: "fence_somewhere (take n x) \<Longrightarrow> fence_somewhere x"
  using fence_somewhere_append [of "take n x" "drop n x"] by simp

lemma fence_somewhere_dropWhile: "fence_somewhere (dropWhile P x) \<Longrightarrow> fence_somewhere x"
  unfolding dropWhile_eq_drop by (rule fence_somewhere_drop)

lemma fence_somewhere_trim: "fence_somewhere (js_trim x) \<Longrightarrow> fence_somewhere x"
proof -
  assume a: "fence_somewhere (js_trim x)"
  let ?y = "dropWhile js_ws x"
  have "?y = rev (dropWhile js_ws (rev ?y)) @ rev (takeWhile js_ws (rev ?y))"
    by (metis rev_append rev_rev_ident takeWhile_dropWhile_id)
  then have "?y = js_trim x @ rev (takeWhile js_ws (rev ?y))"
    by (simp only: js_trim_def)
  with fence_somewhere_append [OF a] have "fence_somewhere ?y" by metis
  then show ?thesis by (rule fence_somewhere_dropWhile)
qed

lemma fence_somewhere_substring0: "fence_somewhere (substring0 x m) \<Longrightarrow> fence_somewhere x"
  unfolding substring0_def by (rule fence_somewhere_take)

lemma has_backticks_32: "has_backticks (32 # x) = has_backticks x"
  unfolding has_backticks_step [of 32 x] by (simp add: backticks_def)

lemma js_ws_96: "\<not> js_ws 96"
  by (simp add: js_ws_def)

lemma collapse_inv:
  "(take 1 (replace_all ws_plus [32] b t) = [96] \<longrightarrow> take 1 t = [96])
   \<and> (take 2 (replace_all ws_plus [32] b t) = [96, 96] \<longrightarrow> take 2 t = [96, 96])
   \<and> (\<forall>n. has_backticks (drop n (replace_all ws_plus [32] b t)) \<longrightarrow> has_backticks (drop n t))
   \<and> (fence_somewhere (replace_all ws_plus [32] b t) \<longrightarrow> fence_somewhere t)"
proof (induction t arbitrary: b rule: length_induct)
  case (1 t)
  show ?case
  proof (cases t)
    case Nil
    then show ?thesis by (simp add: replace_ws_Nil)
  next
    case (Cons c cs)
    show ?thesis
    proof (cases "js_ws c")
      case True
      let ?d = "dropWhile js_ws cs"
      let ?R = "replace_all ws_plus [32] (rev (takeWhile js_ws cs) @ c # b) ?d"
      have r: "replace_all ws_plus [32] b (c # cs) = 32 # ?R"
        using True by (simp add: replace_ws_Cons)
      have "length ?d \<le> length cs" by (rule length_dropWhile_le)
      with 1 Cons have ih:
        "\<forall>n. has_backticks (drop n ?R) \<longrightarrow> has_backticks (drop n ?d)"
        "fence_somewhere ?R \<longrightarrow> fence_somewhere ?d"
        by simp_all
      have d: "?d = drop (length (takeWhile js_ws cs)) cs" by (rule dropWhile_eq_drop)
      have a3: "has_backticks (drop n (32 # ?R)) \<longrightarrow> has_backticks (drop n (c # cs))" for n
      proof (cases n)
        case 0
        have "has_backticks ?R \<longrightarrow> has_backticks ?d" using ih(1) [rule_format, of 0] by simp
        then have "has_backticks ?R \<longrightarrow> has_backticks cs"
          using has_backticks_drop [of "length (takeWhile js_ws cs)" cs] d by metis
        then show ?thesis unfolding 0 drop_0 has_backticks_32 has_backticks_step [of c cs] by blast
      next
        case (Suc m)
        have "drop m ?d = drop (length (takeWhile js_ws cs)) (drop m cs)"
          by (subst d) (simp only: drop_drop add.commute)
        then have "has_backticks (drop m ?d) \<longrightarrow> has_backticks (drop m cs)"
          using has_backticks_drop [of "length (takeWhile js_ws cs)" "drop m cs"] by metis
        with ih(1) [rule_format, of m] show ?thesis unfolding Suc by simp
      qed
      have a4: "fence_somewhere (32 # ?R) \<longrightarrow> fence_somewhere (c # cs)"
      proof
        assume "fence_somewhere (32 # ?R)"
        moreover have "\<not> fence_at (32 # ?R)" unfolding fence_at_def take3_Cons by simp
        ultimately have "fence_somewhere ?R" by simp
        with ih(2) have "fence_somewhere ?d" by blast
        then have "fence_somewhere cs" by (rule fence_somewhere_dropWhile)
        then show "fence_somewhere (c # cs)" by simp
      qed
      have a1: "take 1 (32 # ?R) \<noteq> [96]" by simp
      have a2: "take 2 (32 # ?R) \<noteq> [96, 96]" unfolding take2_Cons by simp
      from a1 a2 a3 a4 show ?thesis unfolding Cons r by blast
    next
      case False
      let ?R = "replace_all ws_plus [32] (c # b) cs"
      have r: "replace_all ws_plus [32] b (c # cs) = c # ?R"
        using False by (simp add: replace_ws_Cons)
      from 1 Cons have ih:
        "take 1 ?R = [96] \<longrightarrow> take 1 cs = [96]" "take 2 ?R = [96, 96] \<longrightarrow> take 2 cs = [96, 96]"
        "\<forall>n. has_backticks (drop n ?R) \<longrightarrow> has_backticks (drop n cs)"
        "fence_somewhere ?R \<longrightarrow> fence_somewhere cs"
        by simp_all
      have a1: "take 1 (c # ?R) = [96] \<longrightarrow> take 1 (c # cs) = [96]"
        unfolding take1_Cons by blast
      have a2: "take 2 (c # ?R) = [96, 96] \<longrightarrow> take 2 (c # cs) = [96, 96]"
        unfolding take2_Cons using ih(1) by blast
      have t3: "take 3 (c # ?R) = backticks \<longrightarrow> take 3 (c # cs) = backticks"
        unfolding take3_Cons using ih(2) by blast
      have a3: "has_backticks (drop n (c # ?R)) \<longrightarrow> has_backticks (drop n (c # cs))" for n
      proof (cases n)
        case 0
        from ih(3) [rule_format, of 0] t3 show ?thesis
          unfolding 0 drop_0 has_backticks_step [of c ?R] has_backticks_step [of c cs] by auto
      next
        case (Suc m)
        with ih(3) [rule_format, of m] show ?thesis by simp
      qed
      have a4: "fence_somewhere (c # ?R) \<longrightarrow> fence_somewhere (c # cs)"
      proof
        assume "fence_somewhere (c # ?R)"
        then have "fence_at (c # ?R) \<or> fence_somewhere ?R" by simp
        then show "fence_somewhere (c # cs)"
        proof
          assume "fence_at (c # ?R)"
          with t3 a3 [of 3] have "fence_at (c # cs)" unfolding fence_at_def by blast
          then show ?thesis by simp
        next
          assume "fence_somewhere ?R"
          with ih(4) show ?thesis by simp
        qed
      qed
      from a1 a2 a3 a4 show ?thesis unfolding Cons r by blast
    qed
  qed
qed

lemma collapse_fence: "fence_somewhere (replace_all ws_plus [32] b t) \<Longrightarrow> fence_somewhere t"
  using collapse_inv by blast

lemma sanitize_no_fence:
  assumes "60 \<notin> set s"
  shows "\<not> has_fenced_block (sanitizeInput (JStr s) m)"
proof -
  let ?t4 = "fold (\<lambda>pattern cleaned. replace_all pattern [] [] cleaned)
               [pat_ignore, pat_you_are_now, pat_system, pat_pretend] s"
  let ?t5 = "replace_all pat_fence [] [] ?t4"
  have "set ?t4 \<subseteq> set s"
    unfolding fold_simps id_apply comp_apply
    by (meson replace_all_delete_subset subset_trans)
  moreover have "set ?t5 \<subseteq> set ?t4" by (rule replace_all_delete_subset)
  ultimately have n5: "60 \<notin> set ?t5" using assms by blast
  have c1: "replace_all pat_tag [] []
              (fold (\<lambda>pattern cleaned. replace_all pattern [] [] cleaned)
                 [pat_ignore, pat_you_are_now, pat_system, pat_pretend, pat_fence, pat_script] s) = ?t5"
    using no_lt_replace_script [OF n5, of "[]"] no_lt_replace_tag [OF n5, of "[]"] by simp
  let ?c2 = "js_trim (replace_all ws_plus [32] [] ?t5)"
  have nf: "\<not> fence_somewhere ?t5" by (rule fence_replace_free)
  then have "\<not> fence_somewhere ?c2" using collapse_fence fence_somewhere_trim by blast
  moreover from this have "\<not> fence_somewhere (substring0 ?c2 (dflt 200 m))"
    using fence_somewhere_substring0 by blast
  ultimately show ?thesis
    unfolding sanitize_string c1 Let_def has_fenced_block_iff by simp
qed

text \<open>
  What the sanitizer does guarantee, for every input and every \<open>maxLength\<close>: a non-string
  input yields the empty string; the result contains no script block (it matches the
  script pattern nowhere); when \<open>maxLength\<close> is a number that is at least 0 (200 when left
  out), the length of the result is at most \<open>maxLength\<close>; and when the input is a string
  without the character \<open><\<close>, the result contains no fenced block.
\<close>

lemma sanitize_guarantees:
  "(\<not> is_string input \<longrightarrow> sanitizeInput input maxLength = [])
   \<and> \<not> has_script_block (sanitizeInput input maxLength)
   \<and> (num_le (Fin 0) (dflt 200 maxLength) \<longrightarrow>
        num_le (Fin (real (length (sanitizeInput input maxLength)))) (dflt 200 maxLength))
   \<and> (\<forall>s. input = JStr s \<and> 60 \<notin> set s \<longrightarrow>
        \<not> has_fenced_block (sanitizeInput input maxLength))"
  using sanitize_not_string sanitize_length tag_free_no_script [OF sanitize_tag_free]
    sanitize_no_fence
  by blast

lemmas sanitize_defs = sanitizeInput_def INJECTION_PATTERNS_def lit_def dflt_def
  pat_ignore_def pat_you_are_now_def pat_system_def pat_pretend_def pat_fence_def pat_script_def
  pat_tag_def ws_plus_def backticks_def js_trim_def js_ws_def upper_def any_unit_def dot_def
  not_gt_def is_word_def at_word_boundary_def substring0_def replace_all.simps

lemma sanitize_guarantees_example:
  "sanitizeInput (JStr input_script) (Some (Fin 2)) = lit ''a ''
   \<and> \<not> has_script_block (sanitizeInput (JStr input_script) (Some (Fin 2)))
   \<and> num_le (Fin (real (length (sanitizeInput (JStr input_script) (Some (Fin 2)))))) (Fin 2)
   \<and> sanitizeInput (JNum (Fin 5)) None = []
   \<and> sanitizeInput (JStr input_fenced) None = lit ''ab c''
   \<and> \<not> has_fenced_block (sanitizeInput (JStr input_fenced) None)"
proof -
  have e: "sanitizeInput (JStr input_script) (Some (Fin 2)) = lit ''a ''"
    by (simp add: input_script_def sanitize_defs)
  have f: "sanitizeInput (JStr input_fenced) None = lit ''ab c''"
    by (simp add: input_fenced_def sanitize_defs)
  have h: "num_le (Fin 0) (dflt 200 (Some (Fin 2)))" "\<not> is_string (JNum (Fin 5))"
    "60 \<notin> set input_fenced"
    by (simp_all add: dflt_def num_le_def input_fenced_def lit_def backticks_def)
  from sanitize_guarantees [of "JStr input_script" "Some (Fin 2)"]
    sanitize_guarantees [of "JNum (Fin 5)" None]
    sanitize_guarantees [of "JStr input_fenced" None] h e f
  show ?thesis by (simp add: dflt_def)
qed

text \<open>
  C5 fails on the code: the tags are removed after the fenced blocks, and every pattern
  is applied once, so removing a tag that stands between backticks joins them. The sample
  input has no three backticks in a row, hence no fenced block; the result is a fenced
  block.
\<close>

theorem C5_fenced_block_survives:
  "\<not> has_backticks input_split_fence
   \<and> \<not> has_fenced_block input_split_fence
   \<and> sanitizeInput (JStr input_split_fence) None = backticks @ lit '' rm '' @ backticks
   \<and> has_fenced_block (sanitizeInput (JStr input_split_fence) None)"
proof -
  have n: "\<not> has_backticks input_split_fence"
    by (simp add: input_split_fence_def lit_def)
  then have "\<not> fence_somewhere input_split_fence" using fence_somewhere_backticks by blast
  then have m: "\<not> has_fenced_block input_split_fence" unfolding has_fenced_block_iff .
  have e: "sanitizeInput (JStr input_split_fence) None = backticks @ lit '' rm '' @ backticks"
    by (simp add: input_split_fence_def sanitize_defs)
  have f: "has_fenced_block (backticks @ lit '' rm '' @ backticks)"
    by (simp add: has_fenced_block_def pat_fence_def backticks_def lit_def any_unit_def)
  from n m e f show ?thesis by simp
qed

theorem C5_fenced_block_survives_witness:
  "has_fenced_block
     (sanitizeInput (JStr ([96, 96] @ lit ''<b>'' @ [96] @ lit '' rm '' @ [96, 96] @ lit ''<b>'' @ [96])) None)"
  using C5_fenced_block_survives unfolding input_split_fence_def
  by blast
section \<open>Properties of the extraction\<close>

lemma rx_match_Opt_Seq:
  "rx_match (Seq (Opt r1) r2) st = rx_match (Seq r1 r2) st @ rx_match r2 st"
  by simp

lemma star_first:
  "rx_match r (rev (takeWhile P s) @ b, dropWhile P s, g) = x # xs \<Longrightarrow>
     \<exists>ys. rx_match (Seq (Star P) r) (b, s, g) = x # ys"
proof (induction s arbitrary: b)
  case Nil
  then show ?case by (simp add: rx_match_Star_Seq del: rx_match.simps)
next
  case (Cons c s)
  show ?case
  proof (cases "P c")
    case True
    with Cons.prems have "rx_match r (rev (takeWhile P s) @ c # b, dropWhile P s, g) = x # xs"
      by simp
    from Cons.IH [OF this] obtain ys where "rx_match (Seq (Star P) r) (c # b, s, g) = x # ys" ..
    with True show ?thesis by (simp add: rx_match_Star_Seq del: rx_match.simps)
  next
    case False
    with Cons.prems show ?thesis by (simp add: rx_match_Star_Seq del: rx_match.simps)
  qed
qed

text \<open>The lazy group followed by the closing fence stops at the first fence.\<close>

lemma star_lazy_any:
  "star_lazy any_unit b (c # t) = (b, c # t) # star_lazy any_unit (c # b) t"
  by (simp add: any_unit_def)

lemma lazy_first_aux:
  assumes "\<forall>i<length u. take 3 (drop i (u @ backticks @ v)) \<noteq> backticks"
  shows "\<exists>rest.
     concat (map (rx_match (Seq (lits backticks) Eps))
       (map (\<lambda>(b', s', g'). (b', s', Some (rev (take (length b' - n) b'))))
          (map (\<lambda>(b', s'). (b', s', g)) (star_lazy any_unit b (u @ backticks @ v)))))
     = (rev backticks @ rev u @ b, v, Some (rev (take (length (rev u @ b) - n) (rev u @ b)))) # rest"
  using assms
proof (induction u arbitrary: b)
  case Nil
  have "rx_match (Seq (lits backticks) Eps) (b, backticks @ v, Some (rev (take (length b - n) b)))
        = [(rev backticks @ b, v, Some (rev (take (length b - n) b)))]"
    by (simp add: rx_match_lits_Seq del: rx_match.simps) simp
  then show ?case
    by (cases "backticks @ v") (simp_all add: backticks_def del: rx_match.simps)
next
  case (Cons c u)
  from Cons.prems have "take 3 (drop 0 ((c # u) @ backticks @ v)) \<noteq> backticks" by blast
  then have "take (length backticks) (c # u @ backticks @ v) \<noteq> backticks"
    unfolding length_backticks by simp
  then have no: "rx_match (Seq (lits backticks) Eps) (b, c # u @ backticks @ v, Some (rev (take (length b - n) b))) = []"
    by (simp add: rx_match_lits_Seq del: rx_match.simps)
  have "\<forall>i<length u. take 3 (drop i (u @ backticks @ v)) \<noteq> backticks"
  proof (intro allI impI)
    fix i assume "i < length u"
    then have "Suc i < length (c # u)" by simp
    with Cons.prems have "take 3 (drop (Suc i) ((c # u) @ backticks @ v)) \<noteq> backticks" by blast
    then show "take 3 (drop i (u @ backticks @ v)) \<noteq> backticks" by simp
  qed
  from Cons.IH [OF this, of "c # b"] obtain rest where
    "concat (map (rx_match (Seq (lits backticks) Eps))
       (map (\<lambda>(b', s', g'). (b', s', Some (rev (take (length b' - n) b'))))
          (map (\<lambda>(b', s'). (b', s', g)) (star_lazy any_unit (c # b) (u @ backticks @ v)))))
     = (rev backticks @ rev u @ c # b, v, Some (rev (take (length (rev u @ c # b) - n) (rev u @ c # b)))) # rest"
    ..
  with no show ?case
    unfolding append_Cons star_lazy_any by (simp del: rx_match.simps)
qed

lemma lazy_first:
  assumes "\<forall>i<length u. take 3 (drop i (u @ backticks @ v)) \<noteq> backticks"
  shows "\<exists>rest. rx_match (Seq (Grp (StarLazy any_unit)) (Seq (lits backticks) Eps)) (b, u @ backticks @ v, g)
           = (rev backticks @ rev u @ b, v, Some u) # rest"
proof -
  from lazy_first_aux [OF assms, of "length b" g b] obtain rest where
    "concat (map (rx_match (Seq (lits backticks) Eps))
       (map (\<lambda>(b', s', g'). (b', s', Some (rev (take (length b' - length b) b'))))
          (map (\<lambda>(b', s'). (b', s', g)) (star_lazy any_unit b (u @ backticks @ v)))))
     = (rev backticks @ rev u @ b, v, Some (rev (take (length (rev u @ b) - length b) (rev u @ b)))) # rest"
    ..
  then show ?thesis by simp
qed

lemma has_backticks_Cons: "has_backticks s \<Longrightarrow> has_backticks (a # s)"
  by (cases s rule: has_backticks.cases) simp_all

lemma backticks_not_10: "take 3 (10 # t) \<noteq> backticks"
  by (simp add: backticks_def)

lemma no_fence_inside:
  "\<not> has_backticks s \<Longrightarrow> i < length (s @ [10]) \<Longrightarrow>
     take 3 (drop i ((s @ [10]) @ backticks @ v)) \<noteq> backticks"
proof (induction s arbitrary: i)
  case Nil
  then show ?case by (simp add: backticks_def)
next
  case (Cons a s)
  show ?case
  proof (cases i)
    case 0
    show ?thesis
    proof (cases s)
      case Nil
      then show ?thesis unfolding 0 by (simp add: backticks_def)
    next
      case s1: (Cons b s')
      show ?thesis
      proof (cases s')
        case Nil
        then show ?thesis unfolding 0 s1 by (simp add: backticks_def)
      next
        case (Cons c s'')
        with Cons.prems(1) s1 have "\<not> (a = 96 \<and> b = 96 \<and> c = 96)" by simp
        then show ?thesis unfolding 0 s1 Cons by (auto simp: backticks_def)
      qed
    qed
  next
    case (Suc j)
    from Cons.prems(1) have "\<not> has_backticks s" using has_backticks_Cons by blast
    moreover from Cons.prems(2) Suc have "j < length (s @ [10])" by simp
    ultimately have "take 3 (drop j ((s @ [10]) @ backticks @ v)) \<noteq> backticks"
      by (rule Cons.IH)
    then show ?thesis unfolding Suc by simp
  qed
qed

lemma no_fence_line:
  assumes "\<not> has_backticks s" and "k < length (10 # s @ [10])"
  shows "take 3 (drop k ((10 # s @ [10]) @ backticks @ v)) \<noteq> backticks"
proof (cases k)
  case 0
  then show ?thesis by (simp add: backticks_def)
next
  case (Suc j)
  with assms(2) have "j < length (s @ [10])" by simp
  from no_fence_inside [OF assms(1) this, of v] show ?thesis unfolding Suc by simp
qed

lemma dropWhile_ws_backticks:
  "dropWhile js_ws (y @ backticks) = dropWhile js_ws y @ backticks"
  by (induction y) (simp_all add: backticks_def js_ws_def)

lemma takeWhile_ws_backticks:
  "takeWhile js_ws (y @ backticks) = takeWhile js_ws y"
  by (induction y) (simp_all add: backticks_def js_ws_def)

lemma rx_search_first: "rx_match r (b, t, None) = x # xs \<Longrightarrow> rx_search r b t = Some x"
  by (cases t) simp_all

lemma js_trim_ws_Cons: "js_ws a \<Longrightarrow> js_trim (a # y) = js_trim y"
  by (simp add: js_trim_def)

lemma js_trim_dropWhile: "js_trim (dropWhile js_ws y) = js_trim y"
  by (simp add: js_trim_def)

lemma js_trim_ws_snoc: "js_ws a \<Longrightarrow> js_trim (y @ [a]) = js_trim y"
proof (cases "\<forall>c\<in>set y. js_ws c")
  case True
  assume "js_ws a"
  with True have "\<forall>c\<in>set (y @ [a]). js_ws c" by simp
  then have "dropWhile js_ws (y @ [a]) = []" by (simp only: dropWhile_eq_Nil_conv)
  moreover from True have "dropWhile js_ws y = []" by (simp only: dropWhile_eq_Nil_conv)
  ultimately show ?thesis by (simp only: js_trim_def)
next
  case False
  assume a: "js_ws a"
  from False obtain c where "c \<in> set y" "\<not> js_ws c" by blast
  then have "dropWhile js_ws (y @ [a]) = dropWhile js_ws y @ [a]" by (rule dropWhile_append1)
  with a show ?thesis by (simp add: js_trim_def)
qed

lemma extract_fenced:
  assumes "\<not> has_backticks s"
  shows "extractJson (fenced s) = dropWhile js_ws (10 # s @ [10])"
proof -
  let ?x = "10 # s @ [10]"
  let ?u = "dropWhile js_ws ?x"
  let ?w = "takeWhile js_ws ?x"
  let ?R3 = "Seq (Grp (StarLazy any_unit)) (Seq (lits backticks) Eps)"
  let ?R2 = "Seq (Star js_ws) ?R3"
  let ?b2 = "rev (lit ''json'') @ rev backticks @ []"
  have nof: "\<forall>i<length ?u. take 3 (drop i (?u @ backticks @ [])) \<noteq> backticks"
  proof (intro allI impI)
    fix i assume i: "i < length ?u"
    have x: "?x = ?w @ ?u" by simp
    have "length ?x = length ?w + length ?u" by (subst x) (simp only: length_append)
    with i have k: "length ?w + i < length ?x" by simp
    have "drop i (?u @ backticks @ []) = drop (length ?w + i) ((?w @ ?u) @ backticks @ [])"
      by (simp only: append_assoc drop_append) simp
    also have "\<dots> = drop (length ?w + i) (?x @ backticks @ [])" by (simp only: takeWhile_dropWhile_id)
    finally show "take 3 (drop i (?u @ backticks @ [])) \<noteq> backticks"
      using no_fence_line [OF assms k, of "[]"] by simp
  qed
  from lazy_first [OF nof, of "rev ?w @ ?b2" None] obtain rest where
    m3: "rx_match ?R3 (rev ?w @ ?b2, ?u @ backticks @ [], None)
          = (rev backticks @ rev ?u @ rev ?w @ ?b2, [], Some ?u) # rest" ..
  have tw: "takeWhile js_ws (?x @ backticks) = ?w" by (rule takeWhile_ws_backticks)
  have dw: "dropWhile js_ws (?x @ backticks) = ?u @ backticks @ []"
    by (simp only: dropWhile_ws_backticks append_Nil2)
  from m3 have "rx_match ?R3 (rev (takeWhile js_ws (?x @ backticks)) @ ?b2,
                  dropWhile js_ws (?x @ backticks), None)
          = (rev backticks @ rev ?u @ rev ?w @ ?b2, [], Some ?u) # rest"
    by (simp only: tw dw)
  from star_first [OF this] obtain ys where
    m2: "rx_match ?R2 (?b2, ?x @ backticks, None)
          = (rev backticks @ rev ?u @ rev ?w @ ?b2, [], Some ?u) # ys" ..
  have "rx_match json_fence ([], fenced s, None)
        = rx_match (Seq (lits backticks) (Seq (Opt (lits (lit ''json''))) ?R2))
            ([], backticks @ lit ''json'' @ ?x @ backticks, None)"
    by (simp only: json_fence_def seqs.simps fenced_def append_Cons append_Nil append_assoc)
  also have "\<dots> = rx_match (Seq (Opt (lits (lit ''json''))) ?R2)
                      (rev backticks @ [], lit ''json'' @ ?x @ backticks, None)"
    by (simp only: rx_match_lits_Seq) simp
  also have "\<dots> = rx_match (Seq (lits (lit ''json'')) ?R2)
                        (rev backticks @ [], lit ''json'' @ ?x @ backticks, None)
                    @ rx_match ?R2 (rev backticks @ [], lit ''json'' @ ?x @ backticks, None)"
    by (rule rx_match_Opt_Seq)
  also have "rx_match (Seq (lits (lit ''json'')) ?R2)
                        (rev backticks @ [], lit ''json'' @ ?x @ backticks, None)
             = rx_match ?R2 (?b2, ?x @ backticks, None)"
    by (simp only: rx_match_lits_Seq) simp
  finally have "\<exists>zs. rx_match json_fence ([], fenced s, None)
        = (rev backticks @ rev ?u @ rev ?w @ ?b2, [], Some ?u) # zs"
    unfolding m2 by simp
  then obtain zs where "rx_match json_fence ([], fenced s, None)
        = (rev backticks @ rev ?u @ rev ?w @ ?b2, [], Some ?u) # zs" ..
  from rx_search_first [OF this] show ?thesis by (simp add: extractJson_def)
qed

lemmas json_fuel_numeral =
  json_value.simps(2,3) [of "pred_numeral k", folded numeral_eq_Suc]
  json_elements.simps(2) [of "pred_numeral k", folded numeral_eq_Suc]
  json_members.simps(2,3) [of "pred_numeral k", folded numeral_eq_Suc]
  for k

lemmas json_defs = JSON_parse_def skip_ws_def json_ws_def json_number_def Let_def is_digit_def
  digits_val_def lit_def js_trim_def js_ws_def prepend_def hex_val_def escape_val_def
  backticks_def json_fuel_numeral

text \<open>
  C7 (amended). For every interior text \<open>s\<close> that holds no three backticks in a row, the
  extraction run on \<open>s\<close> wrapped as a fenced block tagged \<open>json\<close> hands \<open>JSON.parse\<close> the
  text \<open>s.trim()\<close>, so it yields the value that trimming and parsing \<open>s\<close> alone yields, or
  fails when that fails.
\<close>

theorem C7_fenced_extraction:
  assumes "\<not> has_backticks s"
  shows "js_trim (extractJson (fenced s)) = js_trim s
         \<and> parseLevel (fenced s) = JSON_parse (js_trim s)"
proof -
  have ws: "js_ws 10" by (simp add: js_ws_def)
  have "js_trim (extractJson (fenced s)) = js_trim (dropWhile js_ws (10 # s @ [10]))"
    by (simp only: extract_fenced [OF assms])
  also have "\<dots> = js_trim (10 # s @ [10])" by (rule js_trim_dropWhile)
  also have "\<dots> = js_trim (s @ [10])" using ws by (rule js_trim_ws_Cons)
  also have "\<dots> = js_trim s" using ws by (rule js_trim_ws_snoc)
  finally have "js_trim (extractJson (fenced s)) = js_trim s" .
  then show ?thesis by (simp add: parseLevel_def)
qed

theorem C7_fenced_extraction_witness:
  "\<not> has_backticks interior_object
   \<and> parseLevel (fenced interior_object) = JSON_parse (js_trim interior_object)
   \<and> parseLevel (fenced interior_object) = Some (JObj [(lit ''x'', JNum (Fin 1))])"
proof -
  have h: "\<not> has_backticks interior_object"
    by (simp add: interior_object_def lit_def)
  have e: "JSON_parse (js_trim interior_object) = Some (JObj [(lit ''x'', JNum (Fin 1))])"
    by (simp add: interior_object_def json_defs)
  from C7_fenced_extraction [OF h] h e show ?thesis by simp
qed

text \<open>
  C7 as stated fails: the interior that is the JSON string of three backticks parses
  alone, but wrapped, the lazy group ends at the backticks inside it, the text handed to
  \<open>JSON.parse\<close> is a lone quote, and parsing fails.
\<close>

theorem C7_inner_backticks_cut:
  "JSON_parse (js_trim interior_backticks) = Some (JStr backticks)
   \<and> extractJson (fenced interior_backticks) = [34]
   \<and> parseLevel (fenced interior_backticks) = None"
proof -
  have a: "JSON_parse (js_trim interior_backticks) = Some (JStr backticks)"
    by (simp add: interior_backticks_def json_defs)
  have b: "extractJson (fenced interior_backticks) = [34]"
    by (simp add: extractJson_def fenced_def interior_backticks_def json_fence_def backticks_def
          lit_def js_ws_def any_unit_def)
  have c: "JSON_parse (js_trim [34]) = None"
    by (simp add: json_defs)
  from a b c show ?thesis by (simp add: parseLevel_def)
qed

section \<open>Properties of the rate limiter and of the dialog cache\<close>

lemma generateLevel_frame:
  "generateLevel b bd s = (p, s') \<Longrightarrow>
     p \<noteq> TooManyRequests \<and> rateLimiter s' = rateLimiter s \<and> npcCache s' = npcCache s"
  by (auto simp: generateLevel_def Let_def split: if_splits jsval.splits option.splits)

lemma npcDialog_frame:
  "npcDialog b bd s = (p, s') \<Longrightarrow> p \<noteq> TooManyRequests \<and> rateLimiter s' = rateLimiter s"
  by (auto simp: npcDialog_def Let_def split: if_splits jsval.splits option.splits)

lemma handle_limiter:
  assumes "handle b t r s = (p, s')"
  shows "case rateLimit (ip r) t (rateLimiter s) of
           (Rejected, table) \<Rightarrow> p = TooManyRequests \<and> s' = s\<lparr>rateLimiter := table\<rparr>
         | (Next, table) \<Rightarrow> p \<noteq> TooManyRequests \<and> rateLimiter s' = table"
proof (cases "rateLimit (ip r) t (rateLimiter s)")
  case (Pair d table)
  show ?thesis
  proof (cases d)
    case Rejected
    with assms Pair show ?thesis by (simp add: handle_def)
  next
    case Next
    show ?thesis
    proof (cases "route r")
      case GenerateLevel
      with assms Pair Next have "generateLevel b (body r) (s\<lparr>rateLimiter := table\<rparr>) = (p, s')"
        by (simp add: handle_def)
      from generateLevel_frame [OF this] Pair Next show ?thesis by simp
    next
      case NpcDialog
      with assms Pair Next have "npcDialog b (body r) (s\<lparr>rateLimiter := table\<rparr>) = (p, s')"
        by (simp add: handle_def)
      from npcDialog_frame [OF this] Pair Next show ?thesis by simp
    qed
  qed
qed

lemma first_step:
  assumes "handle b t r s = (p, s')" and "clientKey (ip r) = k" and "rateLimiter s k = None"
  shows "p \<noteq> TooManyRequests \<and> rateLimiter s' k = Some \<lparr>count = 1, firstRequest = t\<rparr>"
  using handle_limiter [OF assms(1)] assms(2,3)
  by (auto simp: rateLimit_def Let_def RATE_LIMIT_WINDOW_def MAX_REQUESTS_def split: if_splits)

lemma admit_step:
  assumes "handle b t r s = (p, s')" and "clientKey (ip r) = k"
    and "rateLimiter s k = Some \<lparr>count = c, firstRequest = f\<rparr>"
    and "t - f \<le> RATE_LIMIT_WINDOW" and "c < MAX_REQUESTS"
  shows "p \<noteq> TooManyRequests \<and> rateLimiter s' k = Some \<lparr>count = c + 1, firstRequest = f\<rparr>"
  using handle_limiter [OF assms(1)] assms(2-)
  by (auto simp: rateLimit_def Let_def split: if_splits)

lemma reject_step:
  assumes "handle b t r s = (p, s')" and "clientKey (ip r) = k"
    and "rateLimiter s k = Some \<lparr>count = c, firstRequest = f\<rparr>"
    and "t - f \<le> RATE_LIMIT_WINDOW" and "MAX_REQUESTS \<le> c"
  shows "p = TooManyRequests \<and> s' = s"
  using handle_limiter [OF assms(1)] assms(2-)
  by (auto simp: rateLimit_def Let_def split: if_splits)

lemma reset_step:
  assumes "handle b t r s = (p, s')" and "clientKey (ip r) = k"
    and "rateLimiter s k = Some w" and "t - firstRequest w > RATE_LIMIT_WINDOW"
  shows "p \<noteq> TooManyRequests \<and> rateLimiter s' k = Some \<lparr>count = 1, firstRequest = t\<rparr>"
  using handle_limiter [OF assms(1)] assms(2-)
  by (auto simp: rateLimit_def Let_def split: if_splits)

text \<open>
  C2. Seven requests of one caller identity, served one after the other from a table
  with no record for it, with \<open>MAX_REQUESTS = 5\<close> and a window of 10 s: when the second
  to the sixth arrive within the window opened by the first, the first five are admitted
  (none is answered 429), the sixth is answered 429 and leaves the state as it was, so
  no backend call is made; and the seventh, arriving after the window has elapsed, is
  admitted and leaves the record at \<open>count = 1\<close> with its own time as the window start.
\<close>

theorem C2_rate_limit:
  assumes k: "clientKey (ip r1) = k" "clientKey (ip r2) = k" "clientKey (ip r3) = k"
      "clientKey (ip r4) = k" "clientKey (ip r5) = k" "clientKey (ip r6) = k"
      "clientKey (ip r7) = k"
    and empty: "rateLimiter s0 k = None"
    and h1: "handle b1 t1 r1 s0 = (p1, s1)" and h2: "handle b2 t2 r2 s1 = (p2, s2)"
    and h3: "handle b3 t3 r3 s2 = (p3, s3)" and h4: "handle b4 t4 r4 s3 = (p4, s4)"
    and h5: "handle b5 t5 r5 s4 = (p5, s5)" and h6: "handle b6 t6 r6 s5 = (p6, s6)"
    and h7: "handle b7 t7 r7 s6 = (p7, s7)"
    and within: "t2 - t1 \<le> RATE_LIMIT_WINDOW" "t3 - t1 \<le> RATE_LIMIT_WINDOW"
      "t4 - t1 \<le> RATE_LIMIT_WINDOW" "t5 - t1 \<le> RATE_LIMIT_WINDOW"
      "t6 - t1 \<le> RATE_LIMIT_WINDOW"
    and after: "t7 - t1 > RATE_LIMIT_WINDOW"
  shows "p1 \<noteq> TooManyRequests \<and> p2 \<noteq> TooManyRequests \<and> p3 \<noteq> TooManyRequests
       \<and> p4 \<noteq> TooManyRequests \<and> p5 \<noteq> TooManyRequests
       \<and> p6 = TooManyRequests \<and> s6 = s5 \<and> backendCalls s6 = backendCalls s5
       \<and> p7 \<noteq> TooManyRequests \<and> rateLimiter s7 k = Some \<lparr>count = 1, firstRequest = t7\<rparr>"
proof -
  have m: "(1::int) < MAX_REQUESTS" "(2::int) < MAX_REQUESTS" "(3::int) < MAX_REQUESTS"
    "(4::int) < MAX_REQUESTS" "MAX_REQUESTS \<le> (5::int)"
    by (simp_all add: MAX_REQUESTS_def)
  from first_step [OF h1 k(1) empty]
  have a1: "p1 \<noteq> TooManyRequests" and e1: "rateLimiter s1 k = Some \<lparr>count = 1, firstRequest = t1\<rparr>"
    by simp_all
  from admit_step [OF h2 k(2) e1 within(1) m(1)]
  have a2: "p2 \<noteq> TooManyRequests" and e2: "rateLimiter s2 k = Some \<lparr>count = 2, firstRequest = t1\<rparr>"
    by simp_all
  from admit_step [OF h3 k(3) e2 within(2) m(2)]
  have a3: "p3 \<noteq> TooManyRequests" and e3: "rateLimiter s3 k = Some \<lparr>count = 3, firstRequest = t1\<rparr>"
    by simp_all
  from admit_step [OF h4 k(4) e3 within(3) m(3)]
  have a4: "p4 \<noteq> TooManyRequests" and e4: "rateLimiter s4 k = Some \<lparr>count = 4, firstRequest = t1\<rparr>"
    by simp_all
  from admit_step [OF h5 k(5) e4 within(4) m(4)]
  have a5: "p5 \<noteq> TooManyRequests" and e5: "rateLimiter s5 k = Some \<lparr>count = 5, firstRequest = t1\<rparr>"
    by simp_all
  from reject_step [OF h6 k(6) e5 within(5) m(5)]
  have a6: "p6 = TooManyRequests" and e6: "s6 = s5" by simp_all
  from e5 e6 have e6': "rateLimiter s6 k = Some \<lparr>count = 5, firstRequest = t1\<rparr>" by simp
  from after have "t7 - firstRequest \<lparr>count = 5, firstRequest = t1\<rparr> > RATE_LIMIT_WINDOW" by simp
  from reset_step [OF h7 k(7) e6' this]
  have a7: "p7 \<noteq> TooManyRequests" and e7: "rateLimiter s7 k = Some \<lparr>count = 1, firstRequest = t7\<rparr>"
    by simp_all
  from a1 a2 a3 a4 a5 a6 e6 a7 e7 show ?thesis by simp
qed

lemma served_snoc:
  "handle echo_backend t (dialog_request (lit ''hi'') (lit ''k'')) (served ts)
   = (fst (handle echo_backend t (dialog_request (lit ''hi'') (lit ''k'')) (served ts)),
      served (ts @ [t]))"
  by (simp add: served_def)

theorem C2_rate_limit_witness:
  "fst (handle echo_backend 0 (dialog_request (lit ''hi'') (lit ''k'')) (served [])) \<noteq> TooManyRequests
   \<and> fst (handle echo_backend 8000 (dialog_request (lit ''hi'') (lit ''k''))
            (served [0, 2000, 4000, 6000])) \<noteq> TooManyRequests
   \<and> fst (handle echo_backend 10000 (dialog_request (lit ''hi'') (lit ''k''))
            (served [0, 2000, 4000, 6000, 8000])) = TooManyRequests
   \<and> served [0, 2000, 4000, 6000, 8000, 10000] = served [0, 2000, 4000, 6000, 8000]
   \<and> fst (handle echo_backend 10001 (dialog_request (lit ''hi'') (lit ''k''))
            (served [0, 2000, 4000, 6000, 8000, 10000])) \<noteq> TooManyRequests
   \<and> rateLimiter (served [0, 2000, 4000, 6000, 8000, 10000, 10001]) (lit ''10.0.0.1'')
       = Some \<lparr>count = 1, firstRequest = 10001\<rparr>"
proof -
  let ?r = "dialog_request (lit ''hi'') (lit ''k'')"
  have k: "clientKey (ip ?r) = lit ''10.0.0.1''"
    by (simp add: clientKey_def dialog_request_def lit_def)
  have e: "rateLimiter (served []) (lit ''10.0.0.1'') = None"
    by (simp add: served_def server_empty_def)
  have w: "(2000::int) - 0 \<le> RATE_LIMIT_WINDOW" "(4000::int) - 0 \<le> RATE_LIMIT_WINDOW"
    "(6000::int) - 0 \<le> RATE_LIMIT_WINDOW" "(8000::int) - 0 \<le> RATE_LIMIT_WINDOW"
    "(10000::int) - 0 \<le> RATE_LIMIT_WINDOW" "(10001::int) - 0 > RATE_LIMIT_WINDOW"
    by (simp_all add: RATE_LIMIT_WINDOW_def)
  from C2_rate_limit [OF k k k k k k k e
      served_snoc [of 0 "[]"] served_snoc [of 2000 "[] @ [0]"]
      served_snoc [of 4000 "([] @ [0]) @ [2000]"] served_snoc [of 6000 "(([] @ [0]) @ [2000]) @ [4000]"]
      served_snoc [of 8000 "((([] @ [0]) @ [2000]) @ [4000]) @ [6000]"]
      served_snoc [of 10000 "(((([] @ [0]) @ [2000]) @ [4000]) @ [6000]) @ [8000]"]
      served_snoc [of 10001 "((((([] @ [0]) @ [2000]) @ [4000]) @ [6000]) @ [8000]) @ [10000]"]
      w, unfolded append_Nil append_Cons]
  show ?thesis by blast
qed

lemma evict_length: "length c \<le> 100 \<Longrightarrow> length (evict (cache_set k v c)) \<le> 100"
  by (auto simp: evict_def cache_set_def)

lemma npcDialog_cache_bound:
  "npcDialog b bd s = (p, s') \<Longrightarrow> length (npcCache s) \<le> 100 \<Longrightarrow> length (npcCache s') \<le> 100"
  by (auto simp: npcDialog_def Let_def evict_length split: if_splits jsval.splits option.splits)

lemma npcDialog_miss:
  assumes "npcDialog b bd s = (p, s')" and "getprop bd (lit ''prompt'') = JStr q" and "q \<noteq> []"
    and "truthy (getprop bd (lit ''cacheKey''))"
    and "\<not> cache_has (getprop bd (lit ''cacheKey'')) (npcCache s)"
    and "b q = Some reply" and "length (npcCache s) \<le> 100"
  shows "p = Dialog (js_trim reply) False
       \<and> backendCalls s' = backendCalls s @ [q]
       \<and> npcCache s' = (if length (npcCache s) < 100
                         then npcCache s @ [(getprop bd (lit ''cacheKey''), js_trim reply)]
                         else tl (npcCache s) @ [(getprop bd (lit ''cacheKey''), js_trim reply)])"
proof -
  from assms(2) have nn: "\<not> nullish bd" by (cases bd) simp_all
  have "length (npcCache s) = 100 \<Longrightarrow> npcCache s \<noteq> []" by auto
  with assms nn show ?thesis
    by (auto simp: npcDialog_def Let_def evict_def cache_set_def)
qed

lemma npcDialog_hit:
  assumes "npcDialog b bd s = (p, s')" and "getprop bd (lit ''prompt'') = JStr q" and "q \<noteq> []"
    and "truthy (getprop bd (lit ''cacheKey''))"
    and "cache_has (getprop bd (lit ''cacheKey'')) (npcCache s)"
  shows "p = Dialog (cache_get (getprop bd (lit ''cacheKey'')) (npcCache s)) True \<and> s' = s"
proof -
  from assms(2) have nn: "\<not> nullish bd" by (cases bd) simp_all
  with assms show ?thesis by (auto simp: npcDialog_def Let_def)
qed

lemma npcDialog_present_no_call:
  assumes "npcDialog b bd s = (p, s')"
    and "truthy (getprop bd (lit ''cacheKey''))"
    and "cache_has (getprop bd (lit ''cacheKey'')) (npcCache s)"
  shows "backendCalls s' = backendCalls s"
  using assms
  by (auto simp: npcDialog_def Let_def split: if_splits jsval.splits)

lemma handle_admitted_dialog:
  assumes "handle b t r s = (p, s')" and "route r = NpcDialog"
    and "fst (rateLimit (ip r) t (rateLimiter s)) = Next"
  shows "npcDialog b (body r) (s\<lparr>rateLimiter := snd (rateLimit (ip r) t (rateLimiter s))\<rparr>) = (p, s')"
  using assms by (cases "rateLimit (ip r) t (rateLimiter s)") (simp add: handle_def)

lemma handle_cache_bound:
  assumes "handle b t r s = (p, s')" and "length (npcCache s) \<le> 100"
  shows "length (npcCache s') \<le> 100"
proof (cases "rateLimit (ip r) t (rateLimiter s)")
  case (Pair d table)
  show ?thesis
  proof (cases d)
    case Rejected
    with assms Pair show ?thesis by (auto simp: handle_def)
  next
    case Next
    show ?thesis
    proof (cases "route r")
      case GenerateLevel
      with assms Pair Next have "generateLevel b (body r) (s\<lparr>rateLimiter := table\<rparr>) = (p, s')"
        by (simp add: handle_def)
      from generateLevel_frame [OF this] assms(2) show ?thesis by simp
    next
      case NpcDialog
      with assms Pair Next have "npcDialog b (body r) (s\<lparr>rateLimiter := table\<rparr>) = (p, s')"
        by (simp add: handle_def)
      from npcDialog_cache_bound [OF this] assms(2) show ?thesis by simp
    qed
  qed
qed

lemma handle_present_no_call:
  assumes "handle b t r s = (p, s')" and "route r = NpcDialog"
    and "truthy (getprop (body r) (lit ''cacheKey''))"
    and "cache_has (getprop (body r) (lit ''cacheKey'')) (npcCache s)"
  shows "backendCalls s' = backendCalls s"
proof (cases "rateLimit (ip r) t (rateLimiter s)")
  case (Pair d table)
  show ?thesis
  proof (cases d)
    case Rejected
    with assms Pair show ?thesis by (auto simp: handle_def)
  next
    case Next
    with assms Pair have "npcDialog b (body r) (s\<lparr>rateLimiter := table\<rparr>) = (p, s')"
      by (simp add: handle_def)
    from npcDialog_present_no_call [OF this] assms(3,4) show ?thesis by simp
  qed
qed

text \<open>
  C6 (amended). A cache of at most 100 entries holds at most 100 entries after every
  request. A dialog request that the rate limiter admits, with a non-empty string prompt
  and a truthy \<open>cacheKey\<close> that is not in the cache, whose backend call succeeds, puts its
  key last; if the cache held 100 entries, the first-inserted entry, and no other, is
  evicted. An admitted dialog request with a non-empty string prompt whose \<open>cacheKey\<close> is
  in the cache gets the cached dialog with \<open>cached: true\<close>, and state and backend are
  untouched. No dialog request whose \<open>cacheKey\<close> is in the cache calls the backend.
\<close>

theorem C6_dialog_cache:
  assumes "handle b t r s = (p, s')" and "length (npcCache s) \<le> 100"
  shows "length (npcCache s') \<le> 100
    \<and> (\<forall>q reply. route r = NpcDialog \<and> fst (rateLimit (ip r) t (rateLimiter s)) = Next
          \<and> getprop (body r) (lit ''prompt'') = JStr q \<and> q \<noteq> []
          \<and> truthy (getprop (body r) (lit ''cacheKey''))
          \<and> \<not> cache_has (getprop (body r) (lit ''cacheKey'')) (npcCache s)
          \<and> b q = Some reply \<longrightarrow>
          p = Dialog (js_trim reply) False
          \<and> npcCache s' = (if length (npcCache s) < 100
                            then npcCache s @ [(getprop (body r) (lit ''cacheKey''), js_trim reply)]
                            else tl (npcCache s) @ [(getprop (body r) (lit ''cacheKey''), js_trim reply)]))
    \<and> (\<forall>q. route r = NpcDialog \<and> fst (rateLimit (ip r) t (rateLimiter s)) = Next
          \<and> getprop (body r) (lit ''prompt'') = JStr q \<and> q \<noteq> []
          \<and> truthy (getprop (body r) (lit ''cacheKey''))
          \<and> cache_has (getprop (body r) (lit ''cacheKey'')) (npcCache s) \<longrightarrow>
          p = Dialog (cache_get (getprop (body r) (lit ''cacheKey'')) (npcCache s)) True
          \<and> backendCalls s' = backendCalls s \<and> npcCache s' = npcCache s)
    \<and> (route r = NpcDialog \<and> truthy (getprop (body r) (lit ''cacheKey''))
          \<and> cache_has (getprop (body r) (lit ''cacheKey'')) (npcCache s) \<longrightarrow>
          backendCalls s' = backendCalls s)"
proof (intro conjI allI impI)
  show "length (npcCache s') \<le> 100" using assms by (rule handle_cache_bound)
next
  fix q reply
  assume a: "route r = NpcDialog \<and> fst (rateLimit (ip r) t (rateLimiter s)) = Next
          \<and> getprop (body r) (lit ''prompt'') = JStr q \<and> q \<noteq> []
          \<and> truthy (getprop (body r) (lit ''cacheKey''))
          \<and> \<not> cache_has (getprop (body r) (lit ''cacheKey'')) (npcCache s)
          \<and> b q = Some reply"
  then have "npcDialog b (body r) (s\<lparr>rateLimiter := snd (rateLimit (ip r) t (rateLimiter s))\<rparr>) = (p, s')"
    using handle_admitted_dialog [OF assms(1)] by blast
  from npcDialog_miss [OF this, of q reply] a assms(2)
  show "p = Dialog (js_trim reply) False"
    and "npcCache s' = (if length (npcCache s) < 100
                            then npcCache s @ [(getprop (body r) (lit ''cacheKey''), js_trim reply)]
                            else tl (npcCache s) @ [(getprop (body r) (lit ''cacheKey''), js_trim reply)])"
    by simp_all
next
  fix q
  assume a: "route r = NpcDialog \<and> fst (rateLimit (ip r) t (rateLimiter s)) = Next
          \<and> getprop (body r) (lit ''prompt'') = JStr q \<and> q \<noteq> []
          \<and> truthy (getprop (body r) (lit ''cacheKey''))
          \<and> cache_has (getprop (body r) (lit ''cacheKey'')) (npcCache s)"
  then have "npcDialog b (body r) (s\<lparr>rateLimiter := snd (rateLimit (ip r) t (rateLimiter s))\<rparr>) = (p, s')"
    using handle_admitted_dialog [OF assms(1)] by blast
  from npcDialog_hit [OF this, of q] a
  show "p = Dialog (cache_get (getprop (body r) (lit ''cacheKey'')) (npcCache s)) True"
    and "backendCalls s' = backendCalls s" and "npcCache s' = npcCache s"
    by auto
next
  assume "route r = NpcDialog \<and> truthy (getprop (body r) (lit ''cacheKey''))
          \<and> cache_has (getprop (body r) (lit ''cacheKey'')) (npcCache s)"
  with handle_present_no_call [OF assms(1)] show "backendCalls s' = backendCalls s" by blast
qed

lemmas server_defs = handle_def npcDialog_def generateLevel_def rateLimit_def clientKey_def
  dialog_request_def server_cached_def server_full_def server_empty_def echo_backend_def
  cache_has_def cache_get_def cache_set_def evict_def Let_def lit_def
  RATE_LIMIT_WINDOW_def MAX_REQUESTS_def js_trim_def js_ws_def

theorem C6_dialog_cache_witness:
  "fst (handle echo_backend 0 (dialog_request (lit ''hi'') (lit ''k'')) server_cached)
     = Dialog (lit ''hello'') True
   \<and> backendCalls (snd (handle echo_backend 0 (dialog_request (lit ''hi'') (lit ''k'')) server_cached)) = []
   \<and> length (npcCache server_full) = 100
   \<and> fst (handle echo_backend 0 (dialog_request (lit ''hi'') (lit ''new'')) server_full)
     = Dialog (lit ''hi'') False
   \<and> npcCache (snd (handle echo_backend 0 (dialog_request (lit ''hi'') (lit ''new'')) server_full))
     = tl (npcCache server_full) @ [(JStr (lit ''new''), lit ''hi'')]
   \<and> length (npcCache (snd (handle echo_backend 0 (dialog_request (lit ''hi'') (lit ''new'')) server_full))) \<le> 100"
proof -
  let ?hit = "dialog_request (lit ''hi'') (lit ''k'')"
  let ?new = "dialog_request (lit ''hi'') (lit ''new'')"
  have c: "length (npcCache server_cached) \<le> 100" "length (npcCache server_full) = 100"
    by (simp_all add: server_cached_def server_full_def)
  have hit: "route ?hit = NpcDialog \<and> fst (rateLimit (ip ?hit) 0 (rateLimiter server_cached)) = Next
          \<and> getprop (body ?hit) (lit ''prompt'') = JStr (lit ''hi'') \<and> lit ''hi'' \<noteq> []
          \<and> truthy (getprop (body ?hit) (lit ''cacheKey''))
          \<and> cache_has (getprop (body ?hit) (lit ''cacheKey'')) (npcCache server_cached)"
    by (simp add: server_defs)
  have g: "cache_get (getprop (body ?hit) (lit ''cacheKey'')) (npcCache server_cached) = lit ''hello''"
    "backendCalls server_cached = []"
    by (simp_all add: server_defs)
  have new: "route ?new = NpcDialog \<and> fst (rateLimit (ip ?new) 0 (rateLimiter server_full)) = Next
          \<and> getprop (body ?new) (lit ''prompt'') = JStr (lit ''hi'') \<and> lit ''hi'' \<noteq> []
          \<and> truthy (getprop (body ?new) (lit ''cacheKey''))
          \<and> \<not> cache_has (getprop (body ?new) (lit ''cacheKey'')) (npcCache server_full)
          \<and> echo_backend (lit ''hi'') = Some (lit ''hi'')"
    by (auto simp: server_defs)
  have k: "getprop (body ?new) (lit ''cacheKey'') = JStr (lit ''new'')" "js_trim (lit ''hi'') = lit ''hi''"
    by (simp_all add: server_defs)
  from C6_dialog_cache [OF prod.collapse [symmetric] c(1), of echo_backend 0 ?hit] hit g
  have 1: "fst (handle echo_backend 0 ?hit server_cached) = Dialog (lit ''hello'') True"
     "backendCalls (snd (handle echo_backend 0 ?hit server_cached)) = []"
    by auto
  from C6_dialog_cache [OF prod.collapse [symmetric], of server_full echo_backend 0 ?new] new c(2) k
  have 2: "fst (handle echo_backend 0 ?new server_full) = Dialog (lit ''hi'') False"
     "npcCache (snd (handle echo_backend 0 ?new server_full))
        = tl (npcCache server_full) @ [(JStr (lit ''new''), lit ''hi'')]"
     "length (npcCache (snd (handle echo_backend 0 ?new server_full))) \<le> 100"
    by auto
  from 1 2 c(2) show ?thesis by blast
qed

text \<open>
  C6 as stated fails: a request whose \<open>cacheKey\<close> is in the cache but whose prompt is empty
  is answered 400 'Prompt is required', not with the cached dialog.
\<close>

theorem C6_cached_key_bad_request:
  "getprop (body (dialog_request [] (lit ''k''))) (lit ''cacheKey'') = JStr (lit ''k'')
   \<and> cache_has (JStr (lit ''k'')) (npcCache server_cached)
   \<and> fst (handle echo_backend 0 (dialog_request [] (lit ''k'')) server_cached)
       = BadRequest ''Prompt is required''"
  by (simp add: server_defs)

end
